theory Spec2Isabelle
  imports Complex_Main "HOL-Library.Multiset" "HOL-Library.AList"
    "HOL-Library.Char_ord" "HOL-Library.List_Lexorder" "HOL-Library.Product_Lexorder"
begin

section \<open>Python values and errors\<close>

text \<open>
  The program is a Python 2 voice-skill backend (\<^verbatim>\<open>great_leader.py\<close>). Strings are
  \<^typ>\<open>string\<close>, list indices and lengths are \<^typ>\<open>nat\<close> (they only ever come from
  \<^verbatim>\<open>len\<close> and \<^verbatim>\<open>range\<close>), and differences of lengths are computed in \<^typ>\<open>int\<close>,
  as Python computes them. Every exception the code can raise is a value of \<open>error\<close>.
\<close>

datatype error =
    ValueError string
  | KeyError string
  | IndexError
  | TypeError
  | UnboundLocalError string
  | RecursionDepthExceeded

section \<open>Natural-language list joining\<close>

text \<open>
  \<^verbatim>\<open>concatenate_text_items\<close>: the \<^verbatim>\<open>for i, elem in enumerate(items)\<close> loop, with the
  accumulator \<^verbatim>\<open>nat_list\<close>. \<open>n\<close> is \<^verbatim>\<open>len(items)\<close>; \<^verbatim>\<open>len(items) - 2\<close> is an integer
  and is negative for lists shorter than two.
\<close>

fun concatenate_loop :: "int \<Rightarrow> (nat \<times> string) list \<Rightarrow> string \<Rightarrow> string" where
  "concatenate_loop n [] nat_list = nat_list"
| "concatenate_loop n ((i, elem) # rest) nat_list =
     (let nat_list = nat_list @ elem
      in concatenate_loop n rest
           (if int i < n - 2 then nat_list @ '', ''
            else if int i = n - 2 then nat_list @ '', and ''
            else nat_list))"

definition concatenate_text_items :: "string list \<Rightarrow> string" where
  "concatenate_text_items items =
     concatenate_loop (int (length items)) (enumerate 0 items) ''''"

section \<open>The standard library: \<^verbatim>\<open>random.randint\<close>, \<^verbatim>\<open>list.pop\<close>, \<^verbatim>\<open>difflib\<close>\<close>

text \<open>
  \<^verbatim>\<open>randint(a, b)\<close> raises \<^verbatim>\<open>ValueError\<close> on an empty range and otherwise returns some
  integer of \<open>[a, b]\<close>. The generator is outside the program: the raw draw \<open>r\<close> is an
  argument, reduced to the range, so that every integer of the range is a possible result
  and nothing is assumed about the distribution.
\<close>

definition randint :: "nat \<Rightarrow> int \<Rightarrow> int \<Rightarrow> error + int" where
  "randint r a b =
     (if b < a then Inl (ValueError ''empty range for randrange()'')
      else Inr (a + int (r mod nat (b - a + 1))))"

text \<open>\<^verbatim>\<open>xs.pop(i)\<close>: a negative index counts from the end, an index out of range raises.\<close>

definition pop :: "'a list \<Rightarrow> int \<Rightarrow> error + ('a \<times> 'a list)" where
  "pop xs i =
     (if i < - int (length xs) \<or> int (length xs) \<le> i then Inl IndexError
      else
        let k = nat (if i < 0 then i + int (length xs) else i)
        in Inr (xs ! k, take k xs @ drop (Suc k) xs))"

subsection \<open>\<^verbatim>\<open>difflib.SequenceMatcher\<close>\<close>

text \<open>
  \<^verbatim>\<open>difflib.get_close_matches(word, possibilities, n=3, cutoff)\<close> compares \<open>word\<close>
  (sequence \<open>b\<close>) with each candidate (sequence \<open>a\<close>) through a \<^verbatim>\<open>SequenceMatcher\<close>
  without junk function. The library is not part of the repository; it is transcribed from
  CPython's \<^verbatim>\<open>Lib/difflib.py\<close>. Scores are the exact fractions \<open>2 * M / T\<close>; the
  library computes them in double precision, which orders them and compares them with the
  cutoff in the same way as long as the two strings together are shorter than \<open>2 ^ 26\<close>
  characters.

  \<open>bpopular\<close> is the automatic junk heuristic: in a \<open>b\<close> of 200 elements or more, an
  element that occurs more than \<open>len(b) / 100 + 1\<close> times is dropped from the index
  \<open>b2j\<close>. The junk set itself is empty, so the two junk-only \<^verbatim>\<open>while\<close> statements at the end of
  \<^verbatim>\<open>find_longest_match\<close> never run and are left out.
\<close>

type_synonym match = "nat \<times> nat \<times> nat"

definition bpopular :: "string \<Rightarrow> char \<Rightarrow> bool" where
  "bpopular b elt \<longleftrightarrow> 200 \<le> length b \<and> length b div 100 + 1 < count_list b elt"

definition b2j :: "string \<Rightarrow> char \<Rightarrow> nat list" where
  "b2j b elt = (if bpopular b elt then [] else filter (\<lambda>j. b ! j = elt) [0..<length b])"

text \<open>
  The inner loop of \<^verbatim>\<open>find_longest_match\<close> for one \<open>i\<close>: \<^verbatim>\<open>for j in b2j.get(a[i])\<close>,
  with its \<^verbatim>\<open>continue\<close> below \<open>blo\<close> and its \<^verbatim>\<open>break\<close> from \<open>bhi\<close> on.
  \<^verbatim>\<open>j2len.get(j-1, 0)\<close> is 0 at \<open>j = 0\<close>, since \<open>-1\<close> is never a key.
\<close>

fun match_row ::
  "nat \<Rightarrow> nat \<Rightarrow> nat \<Rightarrow> (nat \<rightharpoonup> nat) \<Rightarrow> nat list \<Rightarrow> match \<times> (nat \<rightharpoonup> nat) \<Rightarrow> match \<times> (nat \<rightharpoonup> nat)" where
  "match_row i blo bhi j2len [] acc = acc"
| "match_row i blo bhi j2len (j # js) (best, newj2len) =
     (if j < blo then match_row i blo bhi j2len js (best, newj2len)
      else if bhi \<le> j then (best, newj2len)
      else
        let k = (if j = 0 then 0 else case j2len (j - 1) of None \<Rightarrow> 0 | Some v \<Rightarrow> v) + 1
        in match_row i blo bhi j2len js
             (if snd (snd best) < k then (i + 1 - k, j + 1 - k, k) else best,
              newj2len(j \<mapsto> k)))"

fun match_rows ::
  "string \<Rightarrow> string \<Rightarrow> nat \<Rightarrow> nat \<Rightarrow> nat list \<Rightarrow> match \<times> (nat \<rightharpoonup> nat) \<Rightarrow> match \<times> (nat \<rightharpoonup> nat)" where
  "match_rows a b blo bhi [] acc = acc"
| "match_rows a b blo bhi (i # is) (best, j2len) =
     match_rows a b blo bhi is (match_row i blo bhi j2len (b2j b (a ! i)) (best, Map.empty))"

text \<open>The two \<^verbatim>\<open>while\<close> statements that extend the best match by equal elements on each end.\<close>

function extend_left :: "string \<Rightarrow> string \<Rightarrow> nat \<Rightarrow> nat \<Rightarrow> match \<Rightarrow> match" where
  "extend_left a b alo blo (besti, bestj, bestsize) =
     (if alo < besti \<and> blo < bestj \<and> a ! (besti - 1) = b ! (bestj - 1)
      then extend_left a b alo blo (besti - 1, bestj - 1, bestsize + 1)
      else (besti, bestj, bestsize))"
  by pat_completeness auto
termination
  by (relation "measure (\<lambda>(a, b, alo, blo, besti, bestj, bestsize). besti)") auto

declare extend_left.simps [simp del]

function extend_right :: "string \<Rightarrow> string \<Rightarrow> nat \<Rightarrow> nat \<Rightarrow> match \<Rightarrow> match" where
  "extend_right a b ahi bhi (besti, bestj, bestsize) =
     (if besti + bestsize < ahi \<and> bestj + bestsize < bhi
         \<and> a ! (besti + bestsize) = b ! (bestj + bestsize)
      then extend_right a b ahi bhi (besti, bestj, bestsize + 1)
      else (besti, bestj, bestsize))"
  by pat_completeness auto
termination
  by (relation "measure (\<lambda>(a, b, ahi, bhi, besti, bestj, bestsize). ahi - (besti + bestsize))") auto

declare extend_right.simps [simp del]

definition find_longest_match :: "string \<Rightarrow> string \<Rightarrow> nat \<Rightarrow> nat \<Rightarrow> nat \<Rightarrow> nat \<Rightarrow> match" where
  "find_longest_match a b alo ahi blo bhi =
     extend_right a b ahi bhi
       (extend_left a b alo blo
          (fst (match_rows a b blo bhi [alo..<ahi] ((alo, blo, 0), Map.empty))))"


text \<open>
  The block returned lies inside \<open>[alo, ahi)\<close> and \<open>[blo, bhi)\<close> and the two
  sequences agree on it. The first is what makes the work list of
  \<^verbatim>\<open>get_matching_blocks\<close> shrink; both are what makes the ratio a lower bound of the
  quick ratio. \<open>row_inv\<close> is the meaning of \<open>j2len\<close> when row \<open>i\<close> starts: an entry
  \<open>v\<close> at \<open>j\<close> is a match of length \<open>v\<close> that ends with \<open>a[i-1]\<close> and \<open>b[j]\<close>.
\<close>

definition match_inv :: "string \<Rightarrow> string \<Rightarrow> nat \<Rightarrow> nat \<Rightarrow> nat \<Rightarrow> nat \<Rightarrow> match \<Rightarrow> bool" where
  "match_inv a b alo ahi blo bhi m \<longleftrightarrow>
     (case m of (i, j, k) \<Rightarrow>
        alo \<le> i \<and> blo \<le> j
        \<and> (i + k \<le> ahi \<and> j + k \<le> bhi \<or> i = alo \<and> j = blo \<and> k = 0)
        \<and> (\<forall>t<k. a ! (i + t) = b ! (j + t)))"

definition row_inv :: "string \<Rightarrow> string \<Rightarrow> nat \<Rightarrow> nat \<Rightarrow> nat \<Rightarrow> nat \<Rightarrow> (nat \<rightharpoonup> nat) \<Rightarrow> bool" where
  "row_inv a b alo blo bhi i j2len \<longleftrightarrow>
     (\<forall>j v. j2len j = Some v \<longrightarrow>
        0 < v \<and> v \<le> i - alo \<and> v \<le> Suc j - blo \<and> j < bhi
        \<and> (\<forall>t<v. a ! (i - 1 - t) = b ! (j - t)))"

lemma match_row_inv:
  assumes "alo \<le> i" "i < ahi" "row_inv a b alo blo bhi i j2len" "\<forall>j\<in>set js. b ! j = a ! i"
    and "match_inv a b alo ahi blo bhi best" "row_inv a b alo blo bhi (Suc i) newj2len"
  shows "match_inv a b alo ahi blo bhi (fst (match_row i blo bhi j2len js (best, newj2len)))
       \<and> row_inv a b alo blo bhi (Suc i) (snd (match_row i blo bhi j2len js (best, newj2len)))"
  using assms(4,5,6)
proof (induction js arbitrary: best newj2len)
  case Nil
  then show ?case by simp
next
  case (Cons j js)
  define p where "p = (if j = 0 then 0 else case j2len (j - 1) of None \<Rightarrow> 0 | Some v \<Rightarrow> v)"
  define k where "k = p + 1"
  have eq: "match_row i blo bhi j2len (j # js) (best, newj2len) =
     (if j < blo then match_row i blo bhi j2len js (best, newj2len)
      else if bhi \<le> j then (best, newj2len)
      else match_row i blo bhi j2len js
             (if snd (snd best) < k then (i + 1 - k, j + 1 - k, k) else best,
              newj2len(j \<mapsto> k)))"
    unfolding k_def p_def by (simp add: Let_def)
  have js: "\<forall>j\<in>set js. b ! j = a ! i" and bj: "b ! j = a ! i"
    using Cons.prems(1) by simp_all
  consider "j < blo" | "\<not> j < blo" "bhi \<le> j" | "\<not> j < blo" "\<not> bhi \<le> j"
    by blast
  then show ?case
  proof cases
    case 1
    then show ?thesis
      unfolding eq using Cons.IH [OF js Cons.prems(2,3)] by (simp only: if_True)
  next
    case 2
    then show ?thesis
      unfolding eq using Cons.prems(2,3) by (simp only: if_True if_False fst_conv snd_conv)
  next
    case 3
    have p: "p \<le> i - alo \<and> p \<le> j - blo \<and> (\<forall>t<p. a ! (i - 1 - t) = b ! (j - 1 - t))"
    proof (cases "j = 0")
      case True
      then show ?thesis by (simp add: p_def)
    next
      case False
      show ?thesis
      proof (cases "j2len (j - 1)")
        case None
        with False show ?thesis by (simp add: p_def)
      next
        case (Some v)
        then have pv: "p = v" using False by (simp add: p_def)
        from assms(3) Some
        have "v \<le> i - alo" "v \<le> Suc (j - 1) - blo" "\<forall>t<v. a ! (i - 1 - t) = b ! (j - 1 - t)"
          unfolding row_inv_def by blast+
        with False show ?thesis unfolding pv by simp
      qed
    qed
    have k: "0 < k" "k \<le> Suc i - alo" "k \<le> Suc j - blo"
      using p assms(1) 3(1) by (auto simp: k_def)
    have agree: "a ! (i - t) = b ! (j - t)" if "t < k" for t
    proof (cases t)
      case 0
      then show ?thesis using bj by simp
    next
      case (Suc t')
      with that have "t' < p" by (simp add: k_def)
      with p have "a ! (i - 1 - t') = b ! (j - 1 - t')" by blast
      with Suc show ?thesis by simp
    qed
    have cand: "match_inv a b alo ahi blo bhi (i + 1 - k, j + 1 - k, k)"
    proof -
      have "a ! (i + 1 - k + t) = b ! (j + 1 - k + t)" if "t < k" for t
      proof -
        have "k - 1 - t < k" using that by simp
        from agree [OF this] have h: "a ! (i - (k - 1 - t)) = b ! (j - (k - 1 - t))" .
        have e1: "i - (k - 1 - t) = i + 1 - k + t"
          using that k(2) assms(1) by arith
        have e2: "j - (k - 1 - t) = j + 1 - k + t"
          using that k(3) 3(1) by arith
        from h show ?thesis unfolding e1 e2 .
      qed
      then have b5: "\<forall>t<k. a ! (i + 1 - k + t) = b ! (j + 1 - k + t)" by blast
      have b1: "alo \<le> i + 1 - k" using k(2) assms(1) by arith
      have b2: "blo \<le> j + 1 - k" using k(3) 3(1) by arith
      have b3: "i + 1 - k + k \<le> ahi" using k(2) assms(1,2) by arith
      have b4: "j + 1 - k + k \<le> bhi" using k(3) 3 by arith
      from b1 b2 b3 b4 b5 show ?thesis
        unfolding match_inv_def prod.case by blast
    qed
    have b': "match_inv a b alo ahi blo bhi
                (if snd (snd best) < k then (i + 1 - k, j + 1 - k, k) else best)"
      using cand Cons.prems(2) by simp
    have n': "row_inv a b alo blo bhi (Suc i) (newj2len(j \<mapsto> k))"
      unfolding row_inv_def
    proof (intro allI impI)
      fix j' v
      assume e: "(newj2len(j \<mapsto> k)) j' = Some v"
      show "0 < v \<and> v \<le> Suc i - alo \<and> v \<le> Suc j' - blo \<and> j' < bhi
            \<and> (\<forall>t<v. a ! (Suc i - 1 - t) = b ! (j' - t))"
      proof (cases "j' = j")
        case True
        with e have "v = k" by simp
        with True k 3 agree show ?thesis by simp
      next
        case False
        with e have "newj2len j' = Some v" by simp
        with Cons.prems(3) show ?thesis unfolding row_inv_def by blast
      qed
    qed
    from 3 show ?thesis
      unfolding eq using Cons.IH [OF js b' n'] by (simp only: if_False)
  qed
qed

lemma b2j_nth: "\<forall>j\<in>set (b2j b elt). b ! j = elt"
  by (simp add: b2j_def)

lemma match_rows_inv:
  assumes "alo \<le> i" "row_inv a b alo blo bhi i j2len" "match_inv a b alo ahi blo bhi best"
  shows "match_inv a b alo ahi blo bhi (fst (match_rows a b blo bhi [i..<ahi] (best, j2len)))"
  using assms
proof (induction "ahi - i" arbitrary: i best j2len)
  case 0
  then show ?case by simp
next
  case (Suc d)
  then have lt: "i < ahi" and d: "d = ahi - Suc i" by auto
  obtain best' new' where r:
    "match_row i blo bhi j2len (b2j b (a ! i)) (best, Map.empty) = (best', new')"
    by (cases "match_row i blo bhi j2len (b2j b (a ! i)) (best, Map.empty)") auto
  have e: "row_inv a b alo blo bhi (Suc i) Map.empty" by (simp add: row_inv_def)
  from match_row_inv [OF Suc.prems(1) lt Suc.prems(2) b2j_nth Suc.prems(3) e] r
  have inv': "match_inv a b alo ahi blo bhi best'" "row_inv a b alo blo bhi (Suc i) new'"
    by auto
  have "alo \<le> Suc i" using Suc.prems(1) by simp
  from Suc.hyps(1) [OF d this inv'(2) inv'(1)] show ?case
    using lt r by (simp add: upt_conv_Cons)
qed

lemma extend_left_inv:
  "match_inv a b alo ahi blo bhi m \<Longrightarrow> match_inv a b alo ahi blo bhi (extend_left a b alo blo m)"
proof (induction a b alo blo m rule: extend_left.induct)
  case (1 a b alo blo besti bestj bestsize)
  show ?case
  proof (cases "alo < besti \<and> blo < bestj \<and> a ! (besti - 1) = b ! (bestj - 1)")
    case True
    have "a ! (besti - 1 + t) = b ! (bestj - 1 + t)" if "t < bestsize + 1" for t
    proof (cases t)
      case 0
      with True show ?thesis by simp
    next
      case (Suc t')
      with that have "t' < bestsize" by simp
      with "1.prems" have "a ! (besti + t') = b ! (bestj + t')"
        by (simp add: match_inv_def)
      with Suc True show ?thesis by simp
    qed
    then have "match_inv a b alo ahi blo bhi (besti - 1, bestj - 1, bestsize + 1)"
      using True "1.prems" by (auto simp: match_inv_def)
    from "1.IH" [OF True this] True show ?thesis
      by (subst extend_left.simps) simp
  next
    case False
    with "1.prems" show ?thesis
      by (subst extend_left.simps) auto
  qed
qed

lemma extend_right_inv:
  "match_inv a b alo ahi blo bhi m \<Longrightarrow> match_inv a b alo ahi blo bhi (extend_right a b ahi bhi m)"
proof (induction a b ahi bhi m rule: extend_right.induct)
  case (1 a b ahi bhi besti bestj bestsize)
  show ?case
  proof (cases "besti + bestsize < ahi \<and> bestj + bestsize < bhi
         \<and> a ! (besti + bestsize) = b ! (bestj + bestsize)")
    case True
    have "a ! (besti + t) = b ! (bestj + t)" if "t < bestsize + 1" for t
    proof (cases "t = bestsize")
      case True
      with \<open>besti + bestsize < ahi \<and> bestj + bestsize < bhi
         \<and> a ! (besti + bestsize) = b ! (bestj + bestsize)\<close> show ?thesis by simp
    next
      case False
      with that have "t < bestsize" by simp
      with "1.prems" show ?thesis by (simp add: match_inv_def)
    qed
    then have "match_inv a b alo ahi blo bhi (besti, bestj, bestsize + 1)"
      using True "1.prems" by (auto simp: match_inv_def)
    from "1.IH" [OF True this] True show ?thesis
      by (subst extend_right.simps) simp
  next
    case False
    with "1.prems" show ?thesis
      by (subst extend_right.simps) auto
  qed
qed

lemma find_longest_match_inv:
  "match_inv a b alo ahi blo bhi (find_longest_match a b alo ahi blo bhi)"
proof -
  have "match_inv a b alo ahi blo bhi (alo, blo, 0)" by (simp add: match_inv_def)
  moreover have "row_inv a b alo blo bhi alo Map.empty" by (simp add: row_inv_def)
  ultimately have "match_inv a b alo ahi blo bhi
      (fst (match_rows a b blo bhi [alo..<ahi] ((alo, blo, 0), Map.empty)))"
    using match_rows_inv [of alo alo a b blo bhi Map.empty ahi "(alo, blo, 0)"] by simp
  then show ?thesis
    unfolding find_longest_match_def by (intro extend_right_inv extend_left_inv)
qed

lemma find_longest_match_bounds:
  assumes "find_longest_match a b alo ahi blo bhi = (i, j, k)" "k \<noteq> 0"
  shows "alo \<le> i \<and> i + k \<le> ahi \<and> blo \<le> j \<and> j + k \<le> bhi
       \<and> (\<forall>t<k. a ! (i + t) = b ! (j + t))"
  using find_longest_match_inv [of a b alo ahi blo bhi] assms
  by (simp add: match_inv_def)

text \<open>
  \<^verbatim>\<open>get_matching_blocks\<close> takes ranges from a work list, and for each non-empty longest
  match adds the range on its left and the range on its right; only the sum of the block
  sizes is used, so the order of the blocks does not matter.
\<close>

function get_matching_blocks :: "string \<Rightarrow> string \<Rightarrow> nat \<Rightarrow> nat \<Rightarrow> nat \<Rightarrow> nat \<Rightarrow> match list" where
  "get_matching_blocks a b alo ahi blo bhi =
     (case find_longest_match a b alo ahi blo bhi of (i, j, k) \<Rightarrow>
        if k = 0 then []
        else (i, j, k)
          # (if alo < i \<and> blo < j then get_matching_blocks a b alo i blo j else [])
          @ (if i + k < ahi \<and> j + k < bhi then get_matching_blocks a b (i + k) ahi (j + k) bhi else []))"
  by pat_completeness auto
termination
proof (relation "measure (\<lambda>(a, b, alo, ahi, blo, bhi). ahi - alo)", goal_cases)
  case 1
  show ?case by simp
next
  case (2 a b alo ahi blo bhi i jk j k)
  then have "find_longest_match a b alo ahi blo bhi = (i, j, k)" by simp
  from find_longest_match_bounds [OF this] 2 show ?case by auto
next
  case (3 a b alo ahi blo bhi i jk j k)
  then have "find_longest_match a b alo ahi blo bhi = (i, j, k)" by simp
  from find_longest_match_bounds [OF this] 3 show ?case by auto
qed

declare get_matching_blocks.simps [simp del]


definition calculate_ratio :: "nat \<Rightarrow> nat \<Rightarrow> rat" where
  "calculate_ratio matches len = (if len \<noteq> 0 then 2 * of_nat matches / of_nat len else 1)"

definition ratio :: "string \<Rightarrow> string \<Rightarrow> rat" where
  "ratio a b =
     calculate_ratio
       (sum_list (map (\<lambda>(i, j, k). k) (get_matching_blocks a b 0 (length a) 0 (length b))))
       (length a + length b)"

text \<open>
  \<^verbatim>\<open>quick_ratio\<close> counts the elements of \<open>a\<close> that are still available in the
  multiset of \<open>b\<close>; \<^verbatim>\<open>real_quick_ratio\<close> only uses the lengths.
\<close>

fun quick_matches :: "string \<Rightarrow> string \<Rightarrow> nat" where
  "quick_matches [] avail = 0"
| "quick_matches (elt # a) avail =
     (if elt \<in> set avail then quick_matches a (remove1 elt avail) + 1
      else quick_matches a avail)"

definition quick_ratio :: "string \<Rightarrow> string \<Rightarrow> rat" where
  "quick_ratio a b = calculate_ratio (quick_matches a b) (length a + length b)"

definition real_quick_ratio :: "string \<Rightarrow> string \<Rightarrow> rat" where
  "real_quick_ratio a b = calculate_ratio (min (length a) (length b)) (length a + length b)"

text \<open>
  \<^verbatim>\<open>heapq.nlargest(n, result)\<close> is \<^verbatim>\<open>sorted(result, reverse=True)[:n]\<close>; the elements are
  pairs of a score and a candidate, ordered lexicographically.
\<close>

definition nlargest :: "nat \<Rightarrow> ('a::linorder) list \<Rightarrow> 'a list" where
  "nlargest n xs = take n (rev (sort xs))"

text \<open>
  The test of \<^verbatim>\<open>get_close_matches\<close> for one candidate \<open>x\<close>: the two cheap upper bounds
  first, then the ratio itself.
\<close>

definition clears_cutoff :: "rat \<Rightarrow> string \<Rightarrow> string \<Rightarrow> bool" where
  "clears_cutoff cutoff x word \<longleftrightarrow>
     cutoff \<le> real_quick_ratio x word \<and> cutoff \<le> quick_ratio x word \<and> cutoff \<le> ratio x word"

definition get_close_matches :: "string \<Rightarrow> string list \<Rightarrow> nat \<Rightarrow> rat \<Rightarrow> string list" where
  "get_close_matches word possibilities n cutoff =
     map snd (nlargest n
       (map (\<lambda>x. (ratio x word, x))
          (filter (\<lambda>x. clears_cutoff cutoff x word) possibilities)))"

section \<open>Content catalog and session\<close>

text \<open>
  \<^verbatim>\<open>leadership_knowledge.json\<close> is read at import time and is not part of the sources: the
  quiz (\<open>leadership_quiz\<close>) and the tips (\<open>leadership_tips\<close>) are arguments of the
  functions that read them. Of each entry of a question's \<^verbatim>\<open>'answers'\<close> only
  \<^verbatim>\<open>'value'\<close> is read, so \<open>answers\<close> is the list of these values.
\<close>

record quiz_ques =
  question :: string
  ques_type :: string
  answers :: "string list"

text \<open>
  \<^verbatim>\<open>session.attributes\<close> is a dictionary; a key that was never set is \<open>None\<close> and reading
  it raises \<^verbatim>\<open>KeyError\<close>. \<^verbatim>\<open>session.attributes['state']\<close> is either
  \<^verbatim>\<open>{'context': 'tip'}\<close> or the quiz progress built by \<^verbatim>\<open>init_quiz_state\<close>.
\<close>

record quiz_state =
  index :: nat
  state_type :: string
  n_responses :: nat
  responses :: "string list"

datatype state = Tip_context | Quiz_context quiz_state

record session =
  rem_quiz_ques :: "nat list option"
  rem_tips :: "nat list option"
  state :: "state option"

text \<open>
  \<^verbatim>\<open>render_template\<close> reads \<^verbatim>\<open>templates.yaml\<close>, which is not part of the sources: the
  renderer is an argument, applied to the template's name and arguments.
  \<^verbatim>\<open>question(speech).reprompt(text)\<close>, with an optional card, is a \<open>response\<close>.
\<close>

datatype template =
    Need_one_more_answer
  | Need_more_answers int
  | Incorrect_answer string string
  | Incorrect_answers string string
  | Continue
  | Card_title

datatype response = Question string string "(string \<times> string) option"

definition init_session :: "quiz_ques list \<Rightarrow> string list \<Rightarrow> session \<Rightarrow> session" where
  "init_session leadership_quiz leadership_tips s =
     s\<lparr>rem_quiz_ques := Some [0..<length leadership_quiz],
       rem_tips := Some [0..<length leadership_tips]\<rparr>"

definition init_quiz_state :: "quiz_ques list \<Rightarrow> session \<Rightarrow> nat \<Rightarrow> error + session" where
  "init_quiz_state leadership_quiz s i_quiz =
     (if length leadership_quiz \<le> i_quiz then Inl IndexError
      else
        let ques_type = ques_type (leadership_quiz ! i_quiz) in
        if ques_type = ''single_part'' then
          Inr (s\<lparr>state := Some (Quiz_context
                 \<lparr>index = i_quiz, state_type = ques_type, n_responses = 1, responses = []\<rparr>)\<rparr>)
        else if ques_type = ''multi_part'' then
          Inr (s\<lparr>state := Some (Quiz_context
                 \<lparr>index = i_quiz, state_type = ques_type,
                  n_responses = length (answers (leadership_quiz ! i_quiz)),
                  responses = []\<rparr>)\<rparr>)
        else Inl (ValueError ''Unknown question type''))"

section \<open>Picking without replacement\<close>

text \<open>
  \<^verbatim>\<open>get_tip_from_sess\<close> and \<^verbatim>\<open>get_quiz_ques_from_sess\<close> call themselves from their
  \<^verbatim>\<open>except ValueError\<close> handler. The interpreter bounds the depth of recursion: the
  first argument is the number of nested calls still allowed, and a call beyond it fails
  with \<open>RecursionDepthExceeded\<close>, which no handler of the program catches. \<open>r\<close> is the
  raw draw of the one \<^verbatim>\<open>randint\<close> call that succeeds.
\<close>

fun get_tip_from_sess :: "nat \<Rightarrow> string list \<Rightarrow> nat \<Rightarrow> session \<Rightarrow> error + (nat \<times> session)" where
  "get_tip_from_sess 0 leadership_tips r s = Inl RecursionDepthExceeded"
| "get_tip_from_sess (Suc depth) leadership_tips r s =
     (case rem_tips s of
        None \<Rightarrow> Inl (KeyError ''rem_tips'')
      | Some pool \<Rightarrow>
          (case randint r 0 (int (length pool) - 1) of
             Inr i_tip \<Rightarrow>
               (case pop pool i_tip of
                  Inl e \<Rightarrow> Inl e
                | Inr (x, pool') \<Rightarrow> Inr (x, s\<lparr>rem_tips := Some pool'\<rparr>))
           | Inl (ValueError m) \<Rightarrow>
               get_tip_from_sess depth leadership_tips r
                 (s\<lparr>rem_tips := Some [0..<length leadership_tips]\<rparr>)
           | Inl e \<Rightarrow> Inl e))"

fun get_quiz_ques_from_sess :: "nat \<Rightarrow> quiz_ques list \<Rightarrow> nat \<Rightarrow> session \<Rightarrow> error + (nat \<times> session)" where
  "get_quiz_ques_from_sess 0 leadership_quiz r s = Inl RecursionDepthExceeded"
| "get_quiz_ques_from_sess (Suc depth) leadership_quiz r s =
     (case rem_quiz_ques s of
        None \<Rightarrow> Inl (KeyError ''rem_quiz_ques'')
      | Some pool \<Rightarrow>
          (case randint r 0 (int (length pool) - 1) of
             Inr i_quiz_ques \<Rightarrow>
               (case pop pool i_quiz_ques of
                  Inl e \<Rightarrow> Inl e
                | Inr (x, pool') \<Rightarrow> Inr (x, s\<lparr>rem_quiz_ques := Some pool'\<rparr>))
           | Inl (ValueError m) \<Rightarrow>
               get_quiz_ques_from_sess depth leadership_quiz r
                 (s\<lparr>rem_quiz_ques := Some [0..<length leadership_quiz]\<rparr>)
           | Inl e \<Rightarrow> Inl e))"

text \<open>
  A run of consecutive tip requests, one raw draw each: the indices served, in order, and
  the session after the last one.
\<close>

fun serve_tips :: "nat \<Rightarrow> string list \<Rightarrow> nat list \<Rightarrow> session \<Rightarrow> error + (nat list \<times> session)" where
  "serve_tips depth leadership_tips [] s = Inr ([], s)"
| "serve_tips depth leadership_tips (r # rs) s =
     (case get_tip_from_sess depth leadership_tips r s of
        Inl e \<Rightarrow> Inl e
      | Inr (i_tip, s') \<Rightarrow>
          (case serve_tips depth leadership_tips rs s' of
             Inl e \<Rightarrow> Inl e
           | Inr (served, s'') \<Rightarrow> Inr (i_tip # served, s'')))"

fun serve_quiz_ques :: "nat \<Rightarrow> quiz_ques list \<Rightarrow> nat list \<Rightarrow> session \<Rightarrow> error + (nat list \<times> session)" where
  "serve_quiz_ques depth leadership_quiz [] s = Inr ([], s)"
| "serve_quiz_ques depth leadership_quiz (r # rs) s =
     (case get_quiz_ques_from_sess depth leadership_quiz r s of
        Inl e \<Rightarrow> Inl e
      | Inr (i_quiz, s') \<Rightarrow>
          (case serve_quiz_ques depth leadership_quiz rs s' of
             Inl e \<Rightarrow> Inl e
           | Inr (served, s'') \<Rightarrow> Inr (i_quiz # served, s'')))"

section \<open>Prompting for more answers\<close>

definition prompt_user_for_more_answers :: "(template \<Rightarrow> string) \<Rightarrow> session \<Rightarrow> error + response" where
  "prompt_user_for_more_answers render_template s =
     (case state s of
        None \<Rightarrow> Inl (KeyError ''state'')
      | Some Tip_context \<Rightarrow> Inl (KeyError ''n_responses'')
      | Some (Quiz_context st) \<Rightarrow>
          let n_missing = int (n_responses st) - int (length (responses st)) in
          if n_missing = 1 then
            (let speech = render_template Need_one_more_answer
             in Inr (Question speech speech None))
          else if 1 < n_missing then
            (let speech = render_template (Need_more_answers n_missing)
             in Inr (Question speech speech None))
          else Inl (UnboundLocalError ''speech''))"

section \<open>Grading\<close>

text \<open>
  \<^verbatim>\<open>graded\<close> is the dictionary \<^verbatim>\<open>{'correct': {}, 'incorrect': [], 'missing': None}\<close>. The
  dictionary \<^verbatim>\<open>graded['correct']\<close> is an association list in insertion order: assigning to
  a key that is present replaces its value in place. The order in which the interpreter
  iterates over the dictionary is another matter: Python 2 follows the hash table, not the
  insertions. Only \<^verbatim>\<open>process_answers\<close> iterates over it, and takes that order as an
  argument.
\<close>

record graded =
  correct :: "(string \<times> string) list"
  incorrect :: "string list"
  missing :: "string list option"

text \<open>
  The loop \<^verbatim>\<open>for resp in response\<close> of \<^verbatim>\<open>check_answers\<close>, on the variables
  \<^verbatim>\<open>all_correct\<close>, \<^verbatim>\<open>graded\<close> and \<^verbatim>\<open>known_answers\<close>. \<^verbatim>\<open>known_answers.remove\<close> removes
  the first occurrence; it cannot raise, because every match is one of the candidates
  (lemma \<open>get_close_matches_subset\<close> below).
\<close>

fun check_loop :: "string list \<Rightarrow> bool \<times> graded \<times> string list \<Rightarrow> bool \<times> graded \<times> string list" where
  "check_loop [] acc = acc"
| "check_loop (resp # response) (all_correct, graded, known_answers) =
     (let matches = get_close_matches resp known_answers 3 (8 / 10) in
      if 0 < length matches then
        check_loop response
          (all_correct,
           graded\<lparr>correct := AList.update resp (hd matches) (correct graded)\<rparr>,
           remove1 (hd matches) known_answers)
      else
        check_loop response
          (False, graded\<lparr>incorrect := incorrect graded @ [resp]\<rparr>, known_answers))"

text \<open>
  The body of \<^verbatim>\<open>check_answers\<close> once the responses and the known answers have been read
  from the session: the loop, then \<^verbatim>\<open>graded['missing']\<close>, which stays \<open>None\<close> when no
  known answer is left.
\<close>

definition grade :: "string list \<Rightarrow> string list \<Rightarrow> bool \<times> graded" where
  "grade response known_answers =
     (case check_loop response
             (True, \<lparr>correct = [], incorrect = [], missing = None\<rparr>, known_answers) of
        (all_correct, graded, known_answers') \<Rightarrow>
          (all_correct,
           if 0 < length known_answers' then graded\<lparr>missing := Some known_answers'\<rparr>
           else graded))"

definition check_answers :: "quiz_ques list \<Rightarrow> session \<Rightarrow> error + (bool \<times> graded)" where
  "check_answers leadership_quiz s =
     (case state s of
        None \<Rightarrow> Inl (KeyError ''state'')
      | Some Tip_context \<Rightarrow> Inl (KeyError ''responses'')
      | Some (Quiz_context st) \<Rightarrow>
          if length leadership_quiz \<le> index st then Inl IndexError
          else Inr (grade (responses st) (answers (leadership_quiz ! index st))))"

text \<open>
  \<^verbatim>\<open>process_answers\<close>. \<^verbatim>\<open>graded['missing'][0]\<close> raises \<^verbatim>\<open>TypeError\<close> when
  \<^verbatim>\<open>graded['missing']\<close> is \<open>None\<close>. Iterating over the dictionary \<^verbatim>\<open>graded['correct']\<close>
  yields its keys, the submitted answers that found a match, in the order of the
  interpreter's hash table, which depends on the keys and on the interpreter and is not
  the order of insertion. \<open>dict_iter\<close> is that iteration: an argument, applied to the
  dictionary, of which the program only expects that it enumerates the keys.
\<close>

definition process_answers ::
  "((string \<times> string) list \<Rightarrow> string list) \<Rightarrow> (template \<Rightarrow> string) \<Rightarrow> quiz_ques list \<Rightarrow> session \<Rightarrow>
     error + string" where
  "process_answers dict_iter render_template leadership_quiz s =
     (case check_answers leadership_quiz s of
        Inl e \<Rightarrow> Inl e
      | Inr (all_correct, graded) \<Rightarrow>
          if all_correct then Inr ''Great job! That is correct.''
          else if length (incorrect graded) = 1 then
            (case missing graded of
               None \<Rightarrow> Inl TypeError
             | Some [] \<Rightarrow> Inl IndexError
             | Some (correct_answer # _) \<Rightarrow>
                 Inr (render_template
                        (Incorrect_answer (hd (incorrect graded)) correct_answer)))
          else
            let wrong_answers = concatenate_text_items (incorrect graded);
                correct_answers = concatenate_text_items (dict_iter (correct graded))
            in Inr (render_template (Incorrect_answers wrong_answers correct_answers)))"

section \<open>The quiz state machine\<close>

text \<open>
  \<^verbatim>\<open>manage_quiz_state\<close> extends \<^verbatim>\<open>state['responses']\<close> in place before anything can
  raise, so the session is returned next to the result also when the result is an error.
\<close>

definition manage_quiz_state ::
  "((string \<times> string) list \<Rightarrow> string list) \<Rightarrow> (template \<Rightarrow> string) \<Rightarrow> quiz_ques list \<Rightarrow> session \<Rightarrow> string list \<Rightarrow> (error + response) \<times> session" where
  "manage_quiz_state dict_iter render_template leadership_quiz s new_answers =
     (case state s of
        None \<Rightarrow> (Inl (KeyError ''state''), s)
      | Some Tip_context \<Rightarrow> (Inl (KeyError ''responses''), s)
      | Some (Quiz_context st) \<Rightarrow>
          let st' = st\<lparr>responses := responses st @ new_answers\<rparr>;
              s' = s\<lparr>state := Some (Quiz_context st')\<rparr>
          in if length (responses st') = n_responses st' then
               (case process_answers dict_iter render_template leadership_quiz s' of
                  Inl e \<Rightarrow> (Inl e, s')
                | Inr speech_output \<Rightarrow>
                    let speech_output = speech_output @ '' '' @ render_template Continue
                    in (Inr (Question speech_output speech_output None), s'))
             else (prompt_user_for_more_answers render_template s', s'))"

section \<open>Intent handlers\<close>

definition launch :: "quiz_ques list \<Rightarrow> string list \<Rightarrow> session \<Rightarrow> response \<times> session" where
  "launch leadership_quiz leadership_tips s =
     (Question ''Do you want a leadership tip or to play the quiz?''
        ''With Great Leader, you can get leadership tips to expand your knowledge of leadership or you can test your current knowledge by playing the quiz''
        None,
      init_session leadership_quiz leadership_tips s)"

definition play_quiz :: "nat \<Rightarrow> quiz_ques list \<Rightarrow> nat \<Rightarrow> session \<Rightarrow> error + (response \<times> session)" where
  "play_quiz depth leadership_quiz r s =
     (case get_quiz_ques_from_sess depth leadership_quiz r s of
        Inl e \<Rightarrow> Inl e
      | Inr (i_quiz, s') \<Rightarrow>
          (case init_quiz_state leadership_quiz s' i_quiz of
             Inl e \<Rightarrow> Inl e
           | Inr s'' \<Rightarrow>
               let quiz_ques = question (leadership_quiz ! i_quiz)
               in Inr (Question quiz_ques quiz_ques None, s'')))"

text \<open>
  \<^verbatim>\<open>get_new_tip\<close> replaces the state by the tip context before it picks.
  \<^verbatim>\<open>leadership_tips[i_tip]\<close> raises for an index outside the list.
\<close>

definition get_new_tip ::
  "nat \<Rightarrow> (template \<Rightarrow> string) \<Rightarrow> string list \<Rightarrow> nat \<Rightarrow> session \<Rightarrow> error + (response \<times> session)" where
  "get_new_tip depth render_template leadership_tips r s =
     (case get_tip_from_sess depth leadership_tips r (s\<lparr>state := Some Tip_context\<rparr>) of
        Inl e \<Rightarrow> Inl e
      | Inr (i_tip, s') \<Rightarrow>
          if length leadership_tips \<le> i_tip then Inl IndexError
          else
            let fact_text = leadership_tips ! i_tip;
                card_title = render_template Card_title;
                res = ''Would you like another fact or the quiz?''
            in Inr (Question (fact_text @ ''. '' @ res) res (Some (card_title, fact_text)), s'))"

definition single_answer ::
  "((string \<times> string) list \<Rightarrow> string list) \<Rightarrow> (template \<Rightarrow> string) \<Rightarrow> quiz_ques list \<Rightarrow> session \<Rightarrow> string \<Rightarrow> (error + response) \<times> session" where
  "single_answer dict_iter render_template leadership_quiz s answer =
     manage_quiz_state dict_iter render_template leadership_quiz s [answer]"

definition two_answer ::
  "((string \<times> string) list \<Rightarrow> string list) \<Rightarrow> (template \<Rightarrow> string) \<Rightarrow> quiz_ques list \<Rightarrow> session \<Rightarrow> string \<Rightarrow> string \<Rightarrow> (error + response) \<times> session" where
  "two_answer dict_iter render_template leadership_quiz s answer_one answer_two =
     manage_quiz_state dict_iter render_template leadership_quiz s [answer_one, answer_two]"

definition five_answer ::
  "((string \<times> string) list \<Rightarrow> string list) \<Rightarrow> (template \<Rightarrow> string) \<Rightarrow> quiz_ques list \<Rightarrow> session \<Rightarrow>
     string \<Rightarrow> string \<Rightarrow> string \<Rightarrow> string \<Rightarrow> string \<Rightarrow> (error + response) \<times> session" where
  "five_answer dict_iter render_template leadership_quiz s
       answer_one answer_two answer_three answer_four answer_five =
     manage_quiz_state dict_iter render_template leadership_quiz s
       [answer_one, answer_two, answer_three, answer_four, answer_five]"

section \<open>Examples\<close>

text \<open>
  A renderer for the examples below, standing in for \<^verbatim>\<open>templates.yaml\<close>: it keeps the
  template's name and its arguments apart, so that different templates give different
  strings. The number of missing answers is not spelled out.
\<close>

fun example_templates :: "template \<Rightarrow> string" where
  "example_templates Need_one_more_answer = ''need one more answer''"
| "example_templates (Need_more_answers n) = ''need more answers''"
| "example_templates (Incorrect_answer wrong_answer correct_answer) =
     ''incorrect_answer['' @ wrong_answer @ '']['' @ correct_answer @ '']''"
| "example_templates (Incorrect_answers wrong_answers correct_answers) =
     ''incorrect_answers['' @ wrong_answers @ '']['' @ correct_answers @ '']''"
| "example_templates Continue = ''continue''"
| "example_templates Card_title = ''card_title''"

text \<open>
  An iteration order for the examples: the keys in alphabetical order, which is not the
  order of insertion.
\<close>

definition sorted_keys :: "(string \<times> string) list \<Rightarrow> string list" where
  "sorted_keys d = sort (map fst d)"

definition empty_session :: session where
  "empty_session = \<lparr>rem_quiz_ques = None, rem_tips = None, state = None\<rparr>"

text \<open>
  A quiz for the examples: a single-part question with two accepted answers, a multi-part
  question and an entry with an unknown type.
\<close>

definition example_quiz :: "quiz_ques list" where
  "example_quiz =
     [\<lparr>question = ''Q0'', ques_type = ''single_part'', answers = [''a'', ''b'']\<rparr>,
      \<lparr>question = ''Q1'', ques_type = ''multi_part'', answers = [''x'', ''y'', ''z'']\<rparr>,
      \<lparr>question = ''Q2'', ques_type = ''two_part'', answers = [''u'']\<rparr>]"

text \<open>
  A quiz with one question of four answers, and the session in which the responses
  \<open>b\<close>, \<open>a\<close>, \<open>p\<close>, \<open>q\<close> to it have been collected.
\<close>

definition example_quiz_four :: "quiz_ques list" where
  "example_quiz_four =
     [\<lparr>question = ''Q'', ques_type = ''multi_part'', answers = [''a'', ''b'', ''c'', ''d'']\<rparr>]"

definition example_session_four :: session where
  "example_session_four =
     empty_session\<lparr>state := Some (Quiz_context
       \<lparr>index = 0, state_type = ''multi_part'', n_responses = 4,
        responses = [''b'', ''a'', ''p'', ''q'']\<rparr>)\<rparr>"

definition example_tips :: "string list" where
  "example_tips = [''t0'', ''t1'', ''t2'']"

text \<open>A session in which question \<open>i_quiz\<close> of the example quiz has all its answers collected.\<close>

definition quiz_session :: "nat \<Rightarrow> string list \<Rightarrow> session" where
  "quiz_session i_quiz collected =
     empty_session\<lparr>state := Some (Quiz_context
       \<lparr>index = i_quiz, state_type = ques_type (example_quiz ! i_quiz),
        n_responses = length collected, responses = collected\<rparr>)\<rparr>"

section \<open>Notions used in the statements\<close>

text \<open>\<^verbatim>\<open>graded['missing']\<close> as a list: \<open>None\<close> stands for no missing answer.\<close>

definition missing_answers :: "graded \<Rightarrow> string list" where
  "missing_answers g = (case missing g of None \<Rightarrow> [] | Some known_answers \<Rightarrow> known_answers)"

text \<open>
  A successful pick in closed form: an empty pool is replaced by the full range, then the
  element at the drawn position is taken out. \<open>pick_run\<close> repeats it, one raw draw per
  pick.
\<close>

definition pick_step :: "nat \<Rightarrow> nat \<Rightarrow> nat list \<Rightarrow> nat \<times> nat list" where
  "pick_step N r pool =
     (let pool = (if pool = [] then [0..<N] else pool); i = r mod length pool
      in (pool ! i, take i pool @ drop (Suc i) pool))"

fun pick_run :: "nat \<Rightarrow> nat list \<Rightarrow> nat list \<Rightarrow> nat list \<times> nat list" where
  "pick_run N [] pool = ([], pool)"
| "pick_run N (r # rs) pool =
     (case pick_step N r pool of (x, pool') \<Rightarrow>
        (case pick_run N rs pool' of (served, pool'') \<Rightarrow> (x # served, pool'')))"

text \<open>
  The history of served indices splits into completed cycles \<open>old\<close>, each of which served
  every index, and the current cycle \<open>cur\<close>, which together with the pool is the whole
  range without repetition. \<open>no_early_repeat\<close>: whenever an index is served a second
  time, every index of the range has been served before.
\<close>

definition cycle_inv :: "nat \<Rightarrow> nat list \<Rightarrow> nat list \<Rightarrow> bool" where
  "cycle_inv N hist pool \<longleftrightarrow>
     (\<exists>old cur. hist = old @ cur \<and> (old = [] \<or> {0..<N} \<subseteq> set old)
        \<and> distinct (cur @ pool) \<and> set (cur @ pool) = {0..<N} \<and> set old \<subseteq> {0..<N})"

definition no_early_repeat :: "nat \<Rightarrow> nat list \<Rightarrow> bool" where
  "no_early_repeat N hist \<longleftrightarrow>
     (\<forall>i j. i < j \<and> j < length hist \<and> hist ! i = hist ! j \<longrightarrow> {0..<N} \<subseteq> set (take j hist))"

section \<open>\<^verbatim>\<open>difflib\<close>: the ratio is the decisive test\<close>










section \<open>Natural-language list joining: properties\<close>

lemma concatenate_loop_last:
  "n = int k + 1 \<Longrightarrow> concatenate_loop n (enumerate k [z]) acc = acc @ z"
  by (simp add: Let_def)

lemma concatenate_loop_general:
  "n = int k + int (length xs) + 2 \<Longrightarrow>
   concatenate_loop n (enumerate k (xs @ [y, z])) acc =
     acc @ concat (map (\<lambda>x. x @ '', '') xs) @ y @ '', and '' @ z"
proof (induction xs arbitrary: k acc)
  case Nil
  then show ?case by (simp add: Let_def)
next
  case (Cons x xs)
  have "n = int (Suc k) + int (length xs) + 2"
    using Cons.prems by simp
  from Cons.IH [OF this] show ?case
    using Cons.prems by (simp add: Let_def)
qed

text \<open>
  C9. \<^verbatim>\<open>concatenate_text_items\<close> returns a single item verbatim; for two items it
  gives \<open>A, and B\<close>; in general the items before the last two are each followed by
  \<open>, \<close> and the last two are separated by \<open>, and \<close>, so that
  \<open>[x, y, z]\<close> becomes \<open>x, y, and z\<close>.
\<close>

theorem concatenate_text_items_join:
  "concatenate_text_items [a] = a
   \<and> concatenate_text_items [a, b] = a @ '', and '' @ b
   \<and> concatenate_text_items (xs @ [y, z]) =
       concat (map (\<lambda>x. x @ '', '') xs) @ y @ '', and '' @ z
   \<and> concatenate_text_items [''x'', ''y'', ''z''] = ''x, y, and z''"
proof -
  have gen: "concatenate_text_items (us @ [v, w]) =
       concat (map (\<lambda>x. x @ '', '') us) @ v @ '', and '' @ w" for us v w
    unfolding concatenate_text_items_def
    using concatenate_loop_general [of "int (length (us @ [v, w]))" 0 us v w "''''"]
    by simp
  have one: "concatenate_text_items [a] = a"
    by (simp add: concatenate_text_items_def Let_def)
  have two: "concatenate_text_items [a, b] = a @ '', and '' @ b"
    using gen [of "[]" a b] by simp
  have three: "concatenate_text_items [''x'', ''y'', ''z''] = ''x, y, and z''"
    using gen [of "[''x'']" "''y''" "''z''"] by simp
  from one two gen three show ?thesis by blast
qed

section \<open>Starting a question\<close>

text \<open>
  C5. For a question of the quiz, \<^verbatim>\<open>init_quiz_state\<close> stores the quiz context with no
  responses, expecting one response for a \<open>single_part\<close> question and as many as the
  question has answers for a \<open>multi_part\<close> one; for any other type it raises
  \<^verbatim>\<open>ValueError("Unknown question type")\<close> and stores nothing.
\<close>

theorem init_quiz_state_expected:
  assumes "i_quiz < length leadership_quiz"
  shows "(ques_type (leadership_quiz ! i_quiz) = ''single_part'' \<longrightarrow>
            init_quiz_state leadership_quiz s i_quiz =
              Inr (s\<lparr>state := Some (Quiz_context
                     \<lparr>index = i_quiz, state_type = ''single_part'', n_responses = 1,
                      responses = []\<rparr>)\<rparr>))
       \<and> (ques_type (leadership_quiz ! i_quiz) = ''multi_part'' \<longrightarrow>
            init_quiz_state leadership_quiz s i_quiz =
              Inr (s\<lparr>state := Some (Quiz_context
                     \<lparr>index = i_quiz, state_type = ''multi_part'',
                      n_responses = length (answers (leadership_quiz ! i_quiz)),
                      responses = []\<rparr>)\<rparr>))
       \<and> (ques_type (leadership_quiz ! i_quiz) \<noteq> ''single_part''
            \<and> ques_type (leadership_quiz ! i_quiz) \<noteq> ''multi_part'' \<longrightarrow>
            init_quiz_state leadership_quiz s i_quiz = Inl (ValueError ''Unknown question type''))"
  using assms by (simp add: init_quiz_state_def Let_def)

theorem init_quiz_state_expected_witness:
  "(0::nat) < length example_quiz \<and> 1 < length example_quiz \<and> 2 < length example_quiz
   \<and> init_quiz_state example_quiz empty_session 0 =
       Inr (empty_session\<lparr>state := Some (Quiz_context
              \<lparr>index = 0, state_type = ''single_part'', n_responses = 1, responses = []\<rparr>)\<rparr>)
   \<and> init_quiz_state example_quiz empty_session 1 =
       Inr (empty_session\<lparr>state := Some (Quiz_context
              \<lparr>index = 1, state_type = ''multi_part'', n_responses = 3, responses = []\<rparr>)\<rparr>)
   \<and> init_quiz_state example_quiz empty_session 2 = Inl (ValueError ''Unknown question type'')"
proof -
  have l: "0 < length example_quiz" "1 < length example_quiz" "2 < length example_quiz"
    by (simp_all add: example_quiz_def)
  show ?thesis
    using l init_quiz_state_expected [OF l(1), of empty_session]
      init_quiz_state_expected [OF l(2), of empty_session]
      init_quiz_state_expected [OF l(3), of empty_session]
    by (simp add: example_quiz_def)
qed

section \<open>Picking without replacement: properties\<close>

lemma pop_in_range:
  "i < length xs \<Longrightarrow> pop xs (int i) = Inr (xs ! i, take i xs @ drop (Suc i) xs)"
  by (simp add: pop_def Let_def)

lemma randint_pool:
  "pool \<noteq> [] \<Longrightarrow> randint r 0 (int (length pool) - 1) = Inr (int (r mod length pool))"
  by (simp add: randint_def)

lemma randint_empty:
  "\<exists>m. randint r 0 (int (length ([]::nat list)) - 1) = Inl (ValueError m)"
  by (simp add: randint_def)

lemma remove_nth_mset:
  "i < length p \<Longrightarrow> mset (p ! i # take i p @ drop (Suc i) p) = mset p"
proof -
  assume "i < length p"
  then have "p = take i p @ p ! i # drop (Suc i) p" by (rule id_take_nth_drop)
  then have "mset p = mset (take i p @ p ! i # drop (Suc i) p)" by simp
  then show ?thesis by simp
qed

lemma remove_nth_distinct:
  assumes "i < length p" "distinct (cur @ p)"
  shows "distinct ((cur @ [p ! i]) @ take i p @ drop (Suc i) p)"
    and "set ((cur @ [p ! i]) @ take i p @ drop (Suc i) p) = set (cur @ p)"
proof -
  have "mset ((cur @ [p ! i]) @ take i p @ drop (Suc i) p) = mset (cur @ p)"
    using remove_nth_mset [OF assms(1)] by simp
  then show "distinct ((cur @ [p ! i]) @ take i p @ drop (Suc i) p)"
    and "set ((cur @ [p ! i]) @ take i p @ drop (Suc i) p) = set (cur @ p)"
    using assms(2) mset_eq_imp_distinct_iff mset_eq_setD by blast+
qed

lemma no_early_repeat_snoc:
  assumes "no_early_repeat N hist" "x \<in> set hist \<Longrightarrow> {0..<N} \<subseteq> set hist"
  shows "no_early_repeat N (hist @ [x])"
  unfolding no_early_repeat_def
proof (intro allI impI)
  fix i j
  assume a: "i < j \<and> j < length (hist @ [x]) \<and> (hist @ [x]) ! i = (hist @ [x]) ! j"
  show "{0..<N} \<subseteq> set (take j (hist @ [x]))"
  proof (cases "j < length hist")
    case True
    with a have "i < length hist" by simp
    with a True have "i < j \<and> j < length hist \<and> hist ! i = hist ! j"
      by (simp add: nth_append)
    with assms(1) have "{0..<N} \<subseteq> set (take j hist)"
      unfolding no_early_repeat_def by blast
    with True show ?thesis by simp
  next
    case False
    with a have j: "j = length hist" by simp
    with a have il: "i < length hist" by simp
    with a j have "hist ! i = x" "i < length hist" by (simp_all add: nth_append)
    then have "x \<in> set hist" using nth_mem by blast
    from assms(2) [OF this] j show ?thesis by simp
  qed
qed

lemma pick_step_inv:
  assumes "0 < N" "cycle_inv N hist pool" "no_early_repeat N hist"
    and "pick_step N r pool = (x, pool')"
  shows "cycle_inv N (hist @ [x]) pool' \<and> no_early_repeat N (hist @ [x])"
proof -
  from assms(2) obtain old cur where inv:
    "hist = old @ cur" "old = [] \<or> {0..<N} \<subseteq> set old"
    "distinct (cur @ pool)" "set (cur @ pool) = {0..<N}" "set old \<subseteq> {0..<N}"
    unfolding cycle_inv_def by blast
  show ?thesis
  proof (cases "pool = []")
    case True
    define i where "i = r mod N"
    have i: "i < length [0..<N]" using assms(1) by (simp add: i_def)
    have x: "x = [0..<N] ! i" and pool': "pool' = take i [0..<N] @ drop (Suc i) [0..<N]"
      using assms(4) True by (simp_all add: pick_step_def Let_def i_def)
    have all: "{0..<N} \<subseteq> set hist"
      using inv(1,4) True by auto
    have "distinct (([] @ [[0..<N] ! i]) @ take i [0..<N] @ drop (Suc i) [0..<N])"
      and "set (([] @ [[0..<N] ! i]) @ take i [0..<N] @ drop (Suc i) [0..<N]) = set ([] @ [0..<N])"
      using remove_nth_distinct [OF i, of "[]"] by simp_all
    then have d: "distinct ([x] @ pool')" and st: "set ([x] @ pool') = {0..<N}"
      unfolding x pool' by simp_all
    have sub: "set hist \<subseteq> {0..<N}"
      using inv(1,4,5) by auto
    have "cycle_inv N (hist @ [x]) pool'"
      unfolding cycle_inv_def using all d st sub by blast
    moreover have "no_early_repeat N (hist @ [x])"
      using assms(3) all by (rule no_early_repeat_snoc)
    ultimately show ?thesis by simp
  next
    case False
    define i where "i = r mod length pool"
    have i: "i < length pool" using False by (simp add: i_def)
    have x: "x = pool ! i" and pool': "pool' = take i pool @ drop (Suc i) pool"
      using assms(4) False by (simp_all add: pick_step_def Let_def i_def)
    from remove_nth_distinct [OF i inv(3)]
    have d: "distinct ((cur @ [x]) @ pool')" and st: "set ((cur @ [x]) @ pool') = {0..<N}"
      unfolding x pool' using inv(4) by simp_all
    have "hist @ [x] = old @ (cur @ [x])" using inv(1) by simp
    then have "cycle_inv N (hist @ [x]) pool'"
      unfolding cycle_inv_def using inv(2,5) d st by blast
    moreover have "no_early_repeat N (hist @ [x])"
    proof (rule no_early_repeat_snoc [OF assms(3)])
      assume "x \<in> set hist"
      moreover have "x \<notin> set cur" using d by auto
      ultimately have "x \<in> set old" using inv(1) by auto
      then have "{0..<N} \<subseteq> set old" using inv(2) by auto
      then show "{0..<N} \<subseteq> set hist" using inv(1) by auto
    qed
    ultimately show ?thesis by simp
  qed
qed

lemma pick_run_inv:
  assumes "0 < N"
  shows "cycle_inv N hist pool \<Longrightarrow> no_early_repeat N hist \<Longrightarrow>
         cycle_inv N (hist @ fst (pick_run N rs pool)) (snd (pick_run N rs pool))
         \<and> no_early_repeat N (hist @ fst (pick_run N rs pool))
         \<and> length (fst (pick_run N rs pool)) = length rs"
proof (induction rs arbitrary: hist pool)
  case Nil
  then show ?case by simp
next
  case (Cons r rs)
  obtain x pool' where step: "pick_step N r pool = (x, pool')"
    by (cases "pick_step N r pool") auto
  from pick_step_inv [OF assms Cons.prems step]
  have "cycle_inv N (hist @ [x]) pool'" "no_early_repeat N (hist @ [x])" by simp_all
  from Cons.IH [OF this] show ?case
    using step by (simp add: split_beta)
qed

lemma pick_run_fresh:
  assumes "0 < N"
  shows "no_early_repeat N (fst (pick_run N rs [0..<N]))"
    and "set (fst (pick_run N rs [0..<N])) \<subseteq> {0..<N}"
    and "length (fst (pick_run N rs [0..<N])) = length rs"
proof -
  have "cycle_inv N [] [0..<N]" by (simp add: cycle_inv_def)
  moreover have "no_early_repeat N []" by (simp add: no_early_repeat_def)
  ultimately have r: "cycle_inv N ([] @ fst (pick_run N rs [0..<N])) (snd (pick_run N rs [0..<N]))
         \<and> no_early_repeat N ([] @ fst (pick_run N rs [0..<N]))
         \<and> length (fst (pick_run N rs [0..<N])) = length rs"
    by (rule pick_run_inv [OF assms])
  then show "no_early_repeat N (fst (pick_run N rs [0..<N]))"
    and "length (fst (pick_run N rs [0..<N])) = length rs" by simp_all
  from r obtain old cur where "fst (pick_run N rs [0..<N]) = old @ cur"
    "set (cur @ snd (pick_run N rs [0..<N])) = {0..<N}" "set old \<subseteq> {0..<N}"
    unfolding cycle_inv_def by auto
  then show "set (fst (pick_run N rs [0..<N])) \<subseteq> {0..<N}" by auto
qed

lemma first_cycle_complete:
  assumes "no_early_repeat N served" "set served \<subseteq> {0..<N}" "N \<le> length served"
  shows "distinct (take N served) \<and> set (take N served) = {0..<N}"
proof -
  have d: "distinct (take N served)"
  proof (rule ccontr)
    assume "\<not> distinct (take N served)"
    then obtain i j where ij: "i < j" "j < length (take N served)"
        "take N served ! i = take N served ! j"
      unfolding distinct_conv_nth by (metis linorder_neqE_nat)
    then have j: "j < N" "j < length served" by simp_all
    with ij have "served ! i = served ! j" by simp
    with ij(1) j(2) assms(1) have "{0..<N} \<subseteq> set (take j served)"
      unfolding no_early_repeat_def by blast
    then have "card {0..<N} \<le> card (set (take j served))"
      by (intro card_mono) simp_all
    also have "\<dots> \<le> length (take j served)" by (rule card_length)
    also have "\<dots> = j" using j(2) by simp
    finally show False using j(1) by simp
  qed
  have sub: "set (take N served) \<subseteq> {0..<N}"
    using assms(2) set_take_subset [of N served] by blast
  have "card (set (take N served)) = N"
    using d assms(3) by (simp add: distinct_card)
  then have "set (take N served) = {0..<N}"
    using sub by (intro card_subset_eq) simp_all
  with d show ?thesis by simp
qed

lemma get_tip_from_sess_nonempty:
  assumes "rem_tips s = Some pool" "pool \<noteq> []"
  shows "get_tip_from_sess (Suc depth) leadership_tips r s =
           Inr (pool ! (r mod length pool),
                s\<lparr>rem_tips := Some (take (r mod length pool) pool @ drop (Suc (r mod length pool)) pool)\<rparr>)"
proof -
  have "r mod length pool < length pool" using assms(2) by simp
  from pop_in_range [OF this] show ?thesis
    using assms by (simp add: randint_pool)
qed

lemma get_tip_from_sess_step:
  assumes "rem_tips s = Some pool" "leadership_tips \<noteq> []"
  shows "get_tip_from_sess (Suc (Suc depth)) leadership_tips r s =
           Inr (fst (pick_step (length leadership_tips) r pool),
                s\<lparr>rem_tips := Some (snd (pick_step (length leadership_tips) r pool))\<rparr>)"
proof (cases "pool = []")
  case True
  have full: "rem_tips (s\<lparr>rem_tips := Some [0..<length leadership_tips]\<rparr>)
                = Some [0..<length leadership_tips]" by simp
  have ne: "[0..<length leadership_tips] \<noteq> []" using assms(2) by simp
  have "get_tip_from_sess (Suc (Suc depth)) leadership_tips r s =
          get_tip_from_sess (Suc depth) leadership_tips r
            (s\<lparr>rem_tips := Some [0..<length leadership_tips]\<rparr>)"
    using assms(1) True by (simp add: randint_def del: get_tip_from_sess.simps(2))
      (simp add: randint_def)
  also note get_tip_from_sess_nonempty [OF full ne]
  finally show ?thesis using True by (simp add: pick_step_def Let_def)
next
  case False
  from get_tip_from_sess_nonempty [OF assms(1) False] False
  show ?thesis by (simp add: pick_step_def Let_def)
qed

lemma serve_tips_run:
  assumes "leadership_tips \<noteq> []"
  shows "rem_tips s = Some pool \<Longrightarrow>
         serve_tips (Suc (Suc depth)) leadership_tips rs s =
           Inr (fst (pick_run (length leadership_tips) rs pool),
                s\<lparr>rem_tips := Some (snd (pick_run (length leadership_tips) rs pool))\<rparr>)"
proof (induction rs arbitrary: s pool)
  case Nil
  then show ?case by simp
next
  case (Cons r rs)
  let ?N = "length leadership_tips"
  let ?s' = "s\<lparr>rem_tips := Some (snd (pick_step ?N r pool))\<rparr>"
  have s': "rem_tips ?s' = Some (snd (pick_step ?N r pool))" by simp
  show ?case
    using get_tip_from_sess_step [OF Cons.prems assms, of depth r] Cons.IH [OF s']
    by (simp add: split_beta del: get_tip_from_sess.simps)
qed

lemma get_quiz_ques_from_sess_nonempty:
  assumes "rem_quiz_ques s = Some pool" "pool \<noteq> []"
  shows "get_quiz_ques_from_sess (Suc depth) leadership_quiz r s =
           Inr (pool ! (r mod length pool),
                s\<lparr>rem_quiz_ques := Some (take (r mod length pool) pool @ drop (Suc (r mod length pool)) pool)\<rparr>)"
proof -
  have "r mod length pool < length pool" using assms(2) by simp
  from pop_in_range [OF this] show ?thesis
    using assms by (simp add: randint_pool)
qed

lemma get_quiz_ques_from_sess_step:
  assumes "rem_quiz_ques s = Some pool" "leadership_quiz \<noteq> []"
  shows "get_quiz_ques_from_sess (Suc (Suc depth)) leadership_quiz r s =
           Inr (fst (pick_step (length leadership_quiz) r pool),
                s\<lparr>rem_quiz_ques := Some (snd (pick_step (length leadership_quiz) r pool))\<rparr>)"
proof (cases "pool = []")
  case True
  have full: "rem_quiz_ques (s\<lparr>rem_quiz_ques := Some [0..<length leadership_quiz]\<rparr>)
                = Some [0..<length leadership_quiz]" by simp
  have ne: "[0..<length leadership_quiz] \<noteq> []" using assms(2) by simp
  have "get_quiz_ques_from_sess (Suc (Suc depth)) leadership_quiz r s =
          get_quiz_ques_from_sess (Suc depth) leadership_quiz r
            (s\<lparr>rem_quiz_ques := Some [0..<length leadership_quiz]\<rparr>)"
    using assms(1) True by (simp add: randint_def del: get_quiz_ques_from_sess.simps(2))
      (simp add: randint_def)
  also note get_quiz_ques_from_sess_nonempty [OF full ne]
  finally show ?thesis using True by (simp add: pick_step_def Let_def)
next
  case False
  from get_quiz_ques_from_sess_nonempty [OF assms(1) False] False
  show ?thesis by (simp add: pick_step_def Let_def)
qed

lemma serve_quiz_ques_run:
  assumes "leadership_quiz \<noteq> []"
  shows "rem_quiz_ques s = Some pool \<Longrightarrow>
         serve_quiz_ques (Suc (Suc depth)) leadership_quiz rs s =
           Inr (fst (pick_run (length leadership_quiz) rs pool),
                s\<lparr>rem_quiz_ques := Some (snd (pick_run (length leadership_quiz) rs pool))\<rparr>)"
proof (induction rs arbitrary: s pool)
  case Nil
  then show ?case by simp
next
  case (Cons r rs)
  let ?N = "length leadership_quiz"
  let ?s' = "s\<lparr>rem_quiz_ques := Some (snd (pick_step ?N r pool))\<rparr>"
  have s': "rem_quiz_ques ?s' = Some (snd (pick_step ?N r pool))" by simp
  show ?case
    using get_quiz_ques_from_sess_step [OF Cons.prems assms, of depth r] Cons.IH [OF s']
    by (simp add: split_beta del: get_quiz_ques_from_sess.simps)
qed

text \<open>
  C3. With at least one tip in the catalog and room for one nested call, a pick from any
  pool returns an index: from a non-empty pool the element at the drawn position, which is
  taken out; from an empty pool the same as from the pool reset to the full range
  \<open>[0, N)\<close>. In a run of picks that starts from the full pool, an index is served a
  second time only when every index has been served before; in particular the first
  \<open>N\<close> of \<open>N + 1\<close> picks are the \<open>N\<close> distinct indices and the last one repeats
  one of them.
\<close>

theorem get_tip_from_sess_cycles:
  assumes "leadership_tips \<noteq> []" and "2 \<le> depth" and "rem_tips s = Some pool"
  shows "(pool \<noteq> [] \<longrightarrow>
            get_tip_from_sess depth leadership_tips r s =
              Inr (pool ! (r mod length pool),
                   s\<lparr>rem_tips := Some (take (r mod length pool) pool
                                        @ drop (Suc (r mod length pool)) pool)\<rparr>))
       \<and> (pool = [] \<longrightarrow>
            get_tip_from_sess depth leadership_tips r s =
              get_tip_from_sess depth leadership_tips r
                (s\<lparr>rem_tips := Some [0..<length leadership_tips]\<rparr>)
            \<and> get_tip_from_sess depth leadership_tips r s =
                Inr (r mod length leadership_tips,
                     s\<lparr>rem_tips := Some (take (r mod length leadership_tips) [0..<length leadership_tips]
                          @ drop (Suc (r mod length leadership_tips)) [0..<length leadership_tips])\<rparr>))
       \<and> (pool = [0..<length leadership_tips] \<longrightarrow>
            (\<exists>served s'.
               serve_tips depth leadership_tips rs s = Inr (served, s')
               \<and> length served = length rs
               \<and> set served \<subseteq> {0..<length leadership_tips}
               \<and> (\<forall>i j. i < j \<and> j < length served \<and> served ! i = served ! j \<longrightarrow>
                     {0..<length leadership_tips} \<subseteq> set (take j served))
               \<and> (length rs = length leadership_tips + 1 \<longrightarrow>
                     distinct (take (length leadership_tips) served)
                     \<and> set (take (length leadership_tips) served) = {0..<length leadership_tips}
                     \<and> served ! length leadership_tips
                         \<in> set (take (length leadership_tips) served))))"
proof -
  let ?N = "length leadership_tips"
  from assms(2) obtain d where depth: "depth = Suc (Suc d)"
    by (metis Suc_le_D numeral_2_eq_2 Suc_le_mono)
  have N: "0 < ?N" using assms(1) by simp
  have full: "rem_tips (s\<lparr>rem_tips := Some [0..<?N]\<rparr>) = Some [0..<?N]" by simp
  have ne: "[0..<?N] \<noteq> []" using N by simp
  have a: "get_tip_from_sess depth leadership_tips r s =
              Inr (pool ! (r mod length pool),
                   s\<lparr>rem_tips := Some (take (r mod length pool) pool
                                        @ drop (Suc (r mod length pool)) pool)\<rparr>)"
    if "pool \<noteq> []"
    unfolding depth by (rule get_tip_from_sess_nonempty [OF assms(3) that])
  have b1: "get_tip_from_sess depth leadership_tips r s =
              Inr (r mod ?N,
                   s\<lparr>rem_tips := Some (take (r mod ?N) [0..<?N] @ drop (Suc (r mod ?N)) [0..<?N])\<rparr>)"
    if "pool = []"
    unfolding depth using get_tip_from_sess_step [OF assms(3,1), of d r] that N
    by (simp add: pick_step_def Let_def del: get_tip_from_sess.simps)
  have b2: "get_tip_from_sess depth leadership_tips r (s\<lparr>rem_tips := Some [0..<?N]\<rparr>) =
              Inr (r mod ?N,
                   s\<lparr>rem_tips := Some (take (r mod ?N) [0..<?N] @ drop (Suc (r mod ?N)) [0..<?N])\<rparr>)"
    unfolding depth using get_tip_from_sess_nonempty [OF full ne, of "Suc d" leadership_tips r] N
    by (simp del: get_tip_from_sess.simps)
  have c: "\<exists>served s'.
               serve_tips depth leadership_tips rs s = Inr (served, s')
               \<and> length served = length rs
               \<and> set served \<subseteq> {0..<?N}
               \<and> (\<forall>i j. i < j \<and> j < length served \<and> served ! i = served ! j \<longrightarrow>
                     {0..<?N} \<subseteq> set (take j served))
               \<and> (length rs = ?N + 1 \<longrightarrow>
                     distinct (take ?N served)
                     \<and> set (take ?N served) = {0..<?N}
                     \<and> served ! ?N \<in> set (take ?N served))"
    if pool: "pool = [0..<?N]"
  proof -
    define served where "served = fst (pick_run ?N rs [0..<?N])"
    have run: "serve_tips depth leadership_tips rs s =
        Inr (served, s\<lparr>rem_tips := Some (snd (pick_run ?N rs [0..<?N]))\<rparr>)"
      unfolding depth served_def
      using serve_tips_run [OF assms(1), of s pool d rs] assms(3) pool by simp
    have ner: "no_early_repeat ?N served" and sub: "set served \<subseteq> {0..<?N}"
      and len: "length served = length rs"
      unfolding served_def by (rule pick_run_fresh [OF N])+
    have rep: "\<forall>i j. i < j \<and> j < length served \<and> served ! i = served ! j \<longrightarrow>
                     {0..<?N} \<subseteq> set (take j served)"
      using ner unfolding no_early_repeat_def .
    have last: "distinct (take ?N served) \<and> set (take ?N served) = {0..<?N}
                     \<and> served ! ?N \<in> set (take ?N served)"
      if l: "length rs = ?N + 1"
    proof -
      have "?N \<le> length served" using l len by simp
      from first_cycle_complete [OF ner sub this]
      have fc: "distinct (take ?N served)" "set (take ?N served) = {0..<?N}" by simp_all
      have "served ! ?N \<in> set served" using l len by (intro nth_mem) simp
      with sub fc show ?thesis by blast
    qed
    from run len sub rep last show ?thesis by blast
  qed
  from a b1 b2 c show ?thesis by simp
qed

theorem get_tip_from_sess_cycles_witness:
  "example_tips \<noteq> [] \<and> (2::nat) \<le> 2
   \<and> rem_tips (init_session [] example_tips empty_session) = Some [0..<length example_tips]
   \<and> serve_tips 2 example_tips [5, 0, 1, 7] (init_session [] example_tips empty_session) =
       Inr ([2, 0, 1, 1], \<lparr>rem_quiz_ques = Some [], rem_tips = Some [0, 2], state = None\<rparr>)
   \<and> rem_tips (empty_session\<lparr>rem_tips := Some []\<rparr>) = Some []
   \<and> get_tip_from_sess 2 example_tips 7 (empty_session\<lparr>rem_tips := Some []\<rparr>) =
       Inr (1, empty_session\<lparr>rem_tips := Some [0, 2]\<rparr>)"
proof -
  have h: "example_tips \<noteq> []" "(2::nat) \<le> 2"
    "rem_tips (init_session [] example_tips empty_session) = Some [0..<length example_tips]"
    "rem_tips (empty_session\<lparr>rem_tips := Some []\<rparr>) = Some []"
    by (simp_all add: example_tips_def init_session_def)
  have ev: "serve_tips 2 example_tips [5, 0, 1, 7] (init_session [] example_tips empty_session) =
       Inr ([2, 0, 1, 1], \<lparr>rem_quiz_ques = Some [], rem_tips = Some [0, 2], state = None\<rparr>)"
    by code_simp
  have ev2: "get_tip_from_sess 2 example_tips 7 (empty_session\<lparr>rem_tips := Some []\<rparr>) =
       Inr (1, empty_session\<lparr>rem_tips := Some [0, 2]\<rparr>)"
    by code_simp
  from h ev ev2
    get_tip_from_sess_cycles [OF h(1) h(2) h(3), of 7 "[5, 0, 1, 7]"]
    get_tip_from_sess_cycles [OF h(1) h(2) h(4), of 7 "[]"]
  show ?thesis by blast
qed

text \<open>The same for \<^verbatim>\<open>get_quiz_ques_from_sess\<close>.\<close>

lemma get_quiz_ques_from_sess_cycles:
  assumes "leadership_quiz \<noteq> []" and "2 \<le> depth" and "rem_quiz_ques s = Some pool"
  shows "(pool \<noteq> [] \<longrightarrow>
            get_quiz_ques_from_sess depth leadership_quiz r s =
              Inr (pool ! (r mod length pool),
                   s\<lparr>rem_quiz_ques := Some (take (r mod length pool) pool
                                        @ drop (Suc (r mod length pool)) pool)\<rparr>))
       \<and> (pool = [] \<longrightarrow>
            get_quiz_ques_from_sess depth leadership_quiz r s =
              get_quiz_ques_from_sess depth leadership_quiz r
                (s\<lparr>rem_quiz_ques := Some [0..<length leadership_quiz]\<rparr>)
            \<and> get_quiz_ques_from_sess depth leadership_quiz r s =
                Inr (r mod length leadership_quiz,
                     s\<lparr>rem_quiz_ques := Some (take (r mod length leadership_quiz) [0..<length leadership_quiz]
                          @ drop (Suc (r mod length leadership_quiz)) [0..<length leadership_quiz])\<rparr>))
       \<and> (pool = [0..<length leadership_quiz] \<longrightarrow>
            (\<exists>served s'.
               serve_quiz_ques depth leadership_quiz rs s = Inr (served, s')
               \<and> length served = length rs
               \<and> set served \<subseteq> {0..<length leadership_quiz}
               \<and> (\<forall>i j. i < j \<and> j < length served \<and> served ! i = served ! j \<longrightarrow>
                     {0..<length leadership_quiz} \<subseteq> set (take j served))
               \<and> (length rs = length leadership_quiz + 1 \<longrightarrow>
                     distinct (take (length leadership_quiz) served)
                     \<and> set (take (length leadership_quiz) served) = {0..<length leadership_quiz}
                     \<and> served ! length leadership_quiz
                         \<in> set (take (length leadership_quiz) served))))"
proof -
  let ?N = "length leadership_quiz"
  from assms(2) obtain d where depth: "depth = Suc (Suc d)"
    by (metis Suc_le_D numeral_2_eq_2 Suc_le_mono)
  have N: "0 < ?N" using assms(1) by simp
  have full: "rem_quiz_ques (s\<lparr>rem_quiz_ques := Some [0..<?N]\<rparr>) = Some [0..<?N]" by simp
  have ne: "[0..<?N] \<noteq> []" using N by simp
  have a: "get_quiz_ques_from_sess depth leadership_quiz r s =
              Inr (pool ! (r mod length pool),
                   s\<lparr>rem_quiz_ques := Some (take (r mod length pool) pool
                                        @ drop (Suc (r mod length pool)) pool)\<rparr>)"
    if "pool \<noteq> []"
    unfolding depth by (rule get_quiz_ques_from_sess_nonempty [OF assms(3) that])
  have b1: "get_quiz_ques_from_sess depth leadership_quiz r s =
              Inr (r mod ?N,
                   s\<lparr>rem_quiz_ques := Some (take (r mod ?N) [0..<?N] @ drop (Suc (r mod ?N)) [0..<?N])\<rparr>)"
    if "pool = []"
    unfolding depth using get_quiz_ques_from_sess_step [OF assms(3,1), of d r] that N
    by (simp add: pick_step_def Let_def del: get_quiz_ques_from_sess.simps)
  have b2: "get_quiz_ques_from_sess depth leadership_quiz r (s\<lparr>rem_quiz_ques := Some [0..<?N]\<rparr>) =
              Inr (r mod ?N,
                   s\<lparr>rem_quiz_ques := Some (take (r mod ?N) [0..<?N] @ drop (Suc (r mod ?N)) [0..<?N])\<rparr>)"
    unfolding depth using get_quiz_ques_from_sess_nonempty [OF full ne, of "Suc d" leadership_quiz r] N
    by (simp del: get_quiz_ques_from_sess.simps)
  have c: "\<exists>served s'.
               serve_quiz_ques depth leadership_quiz rs s = Inr (served, s')
               \<and> length served = length rs
               \<and> set served \<subseteq> {0..<?N}
               \<and> (\<forall>i j. i < j \<and> j < length served \<and> served ! i = served ! j \<longrightarrow>
                     {0..<?N} \<subseteq> set (take j served))
               \<and> (length rs = ?N + 1 \<longrightarrow>
                     distinct (take ?N served)
                     \<and> set (take ?N served) = {0..<?N}
                     \<and> served ! ?N \<in> set (take ?N served))"
    if pool: "pool = [0..<?N]"
  proof -
    define served where "served = fst (pick_run ?N rs [0..<?N])"
    have run: "serve_quiz_ques depth leadership_quiz rs s =
        Inr (served, s\<lparr>rem_quiz_ques := Some (snd (pick_run ?N rs [0..<?N]))\<rparr>)"
      unfolding depth served_def
      using serve_quiz_ques_run [OF assms(1), of s pool d rs] assms(3) pool by simp
    have ner: "no_early_repeat ?N served" and sub: "set served \<subseteq> {0..<?N}"
      and len: "length served = length rs"
      unfolding served_def by (rule pick_run_fresh [OF N])+
    have rep: "\<forall>i j. i < j \<and> j < length served \<and> served ! i = served ! j \<longrightarrow>
                     {0..<?N} \<subseteq> set (take j served)"
      using ner unfolding no_early_repeat_def .
    have last: "distinct (take ?N served) \<and> set (take ?N served) = {0..<?N}
                     \<and> served ! ?N \<in> set (take ?N served)"
      if l: "length rs = ?N + 1"
    proof -
      have "?N \<le> length served" using l len by simp
      from first_cycle_complete [OF ner sub this]
      have fc: "distinct (take ?N served)" "set (take ?N served) = {0..<?N}" by simp_all
      have "served ! ?N \<in> set served" using l len by (intro nth_mem) simp
      with sub fc show ?thesis by blast
    qed
    from run len sub rep last show ?thesis by blast
  qed
  from a b1 b2 c show ?thesis by simp
qed

text \<open>
  C6. The specification lets a pick from an empty catalog fail with a configuration error.
  The code has no such check: with no tips in the catalog and the pool of remaining tips
  empty, the handler refills the pool with the empty range and calls the function again,
  without end. Whatever depth of recursion the interpreter allows, the call ends by
  exceeding it; this is the only way in which the pick fails.
\<close>

theorem get_tip_from_sess_empty_catalog:
  assumes "rem_tips s = Some []"
  shows "get_tip_from_sess depth [] r s = Inl RecursionDepthExceeded"
  using assms
proof (induction depth arbitrary: s)
  case 0
  show ?case by simp
next
  case (Suc depth)
  have "get_tip_from_sess depth [] r (s\<lparr>rem_tips := Some [0..<length ([]::string list)]\<rparr>)
          = Inl RecursionDepthExceeded"
    by (rule Suc.IH) simp
  then show ?case
    using Suc.prems by (simp add: randint_def)
qed

theorem get_tip_from_sess_empty_catalog_witness:
  "rem_tips (init_session [] [] empty_session) = Some []
   \<and> get_tip_from_sess 1000 [] 7 (init_session [] [] empty_session) = Inl RecursionDepthExceeded"
proof -
  have h: "rem_tips (init_session [] [] empty_session) = Some []"
    by (simp add: init_session_def)
  from h get_tip_from_sess_empty_catalog [OF h, of 1000 7] show ?thesis by simp
qed

lemma get_quiz_ques_from_sess_empty_catalog:
  assumes "rem_quiz_ques s = Some []"
  shows "get_quiz_ques_from_sess depth [] r s = Inl RecursionDepthExceeded"
  using assms
proof (induction depth arbitrary: s)
  case 0
  show ?case by simp
next
  case (Suc depth)
  have "get_quiz_ques_from_sess depth [] r (s\<lparr>rem_quiz_ques := Some [0..<length ([]::quiz_ques list)]\<rparr>)
          = Inl RecursionDepthExceeded"
    by (rule Suc.IH) simp
  then show ?case
    using Suc.prems by (simp add: randint_def)
qed

section \<open>Collecting answers\<close>

text \<open>
  What \<^verbatim>\<open>manage_quiz_state\<close> does with the answers of one turn: it appends all of them,
  grades when the count then equals \<open>n_responses\<close>, prompts when it is smaller, and
  fails when it is larger, because \<^verbatim>\<open>prompt_user_for_more_answers\<close> assigns \<^verbatim>\<open>speech\<close>
  only for a positive number of missing answers.
\<close>

lemma manage_quiz_state_appends:
  assumes "state s = Some (Quiz_context st)"
  shows "snd (manage_quiz_state dict_iter render_template leadership_quiz s new_answers) =
           s\<lparr>state := Some (Quiz_context (st\<lparr>responses := responses st @ new_answers\<rparr>))\<rparr>"
  using assms by (simp add: manage_quiz_state_def Let_def split: sum.splits)

lemma manage_quiz_state_grades:
  assumes "state s = Some (Quiz_context st)"
    and "length (responses st) + length new_answers = n_responses st"
  shows "fst (manage_quiz_state dict_iter render_template leadership_quiz s new_answers) =
           (case process_answers dict_iter render_template leadership_quiz
                   (s\<lparr>state := Some (Quiz_context (st\<lparr>responses := responses st @ new_answers\<rparr>))\<rparr>) of
              Inl e \<Rightarrow> Inl e
            | Inr speech_output \<Rightarrow>
                Inr (Question (speech_output @ '' '' @ render_template Continue)
                       (speech_output @ '' '' @ render_template Continue) None))"
  using assms by (simp add: manage_quiz_state_def Let_def split: sum.splits)

lemma manage_quiz_state_prompts:
  assumes "state s = Some (Quiz_context st)"
    and "length (responses st) + length new_answers < n_responses st"
  shows "fst (manage_quiz_state dict_iter render_template leadership_quiz s new_answers) =
           prompt_user_for_more_answers render_template
             (s\<lparr>state := Some (Quiz_context (st\<lparr>responses := responses st @ new_answers\<rparr>))\<rparr>)
       \<and> (\<exists>speech. fst (manage_quiz_state dict_iter render_template leadership_quiz s new_answers) =
             Inr (Question speech speech None))"
  using assms
  by (auto simp: manage_quiz_state_def prompt_user_for_more_answers_def Let_def)

lemma manage_quiz_state_overshoot:
  assumes "state s = Some (Quiz_context st)"
    and "n_responses st < length (responses st) + length new_answers"
  shows "fst (manage_quiz_state dict_iter render_template leadership_quiz s new_answers) =
           Inl (UnboundLocalError ''speech'')"
  using assms
  by (auto simp: manage_quiz_state_def prompt_user_for_more_answers_def Let_def)

text \<open>
  C2. The specification requires that the collected answers never outnumber the expected
  ones and that a count different from the expected one keeps the question waiting for
  answers. The code at a session that was launched and then asked the single-part question
  \<open>Q0\<close>: the two-answer intent appends both answers, so that two answers are
  collected where one is expected, and the turn ends in \<^verbatim>\<open>UnboundLocalError\<close> instead
  of a prompt or a grade.
\<close>

theorem two_answer_overshoots_single_part:
  "play_quiz 2 example_quiz 0 (snd (launch example_quiz [] empty_session)) =
     Inr (Question ''Q0'' ''Q0'' None,
          \<lparr>rem_quiz_ques = Some [1, 2], rem_tips = Some [],
           state = Some (Quiz_context
             \<lparr>index = 0, state_type = ''single_part'', n_responses = 1, responses = []\<rparr>)\<rparr>)
   \<and> two_answer dict_iter example_templates example_quiz
       \<lparr>rem_quiz_ques = Some [1, 2], rem_tips = Some [],
        state = Some (Quiz_context
          \<lparr>index = 0, state_type = ''single_part'', n_responses = 1, responses = []\<rparr>)\<rparr>
       ''x'' ''y'' =
     (Inl (UnboundLocalError ''speech''),
      \<lparr>rem_quiz_ques = Some [1, 2], rem_tips = Some [],
       state = Some (Quiz_context
         \<lparr>index = 0, state_type = ''single_part'', n_responses = 1,
          responses = [''x'', ''y'']\<rparr>)\<rparr>)"
  by (simp add: play_quiz_def launch_def init_session_def empty_session_def example_quiz_def
      randint_def pop_def init_quiz_state_def two_answer_def manage_quiz_state_def
      prompt_user_for_more_answers_def Let_def upt_rec numeral_2_eq_2)

text \<open>
  C8. With a quiz question active, \<^verbatim>\<open>manage_quiz_state([])\<close> leaves the session as it is,
  and answers with the \<open>need_one_more_answer\<close> prompt when exactly one answer is missing
  and with the \<open>need_more_answers\<close> prompt, carrying the number missing, when more
  than one is.
\<close>

theorem manage_quiz_state_empty_submission:
  assumes "state s = Some (Quiz_context st)"
  shows "snd (manage_quiz_state dict_iter render_template leadership_quiz s []) = s
       \<and> (int (n_responses st) - int (length (responses st)) = 1 \<longrightarrow>
            fst (manage_quiz_state dict_iter render_template leadership_quiz s []) =
              Inr (Question (render_template Need_one_more_answer)
                     (render_template Need_one_more_answer) None))
       \<and> (1 < int (n_responses st) - int (length (responses st)) \<longrightarrow>
            fst (manage_quiz_state dict_iter render_template leadership_quiz s []) =
              Inr (Question
                     (render_template
                        (Need_more_answers (int (n_responses st) - int (length (responses st)))))
                     (render_template
                        (Need_more_answers (int (n_responses st) - int (length (responses st)))))
                     None))"
proof -
  show ?thesis
    using assms
    by (auto simp: manage_quiz_state_def prompt_user_for_more_answers_def Let_def
          split: sum.splits)
qed

theorem manage_quiz_state_empty_submission_witness:
  "state (empty_session\<lparr>state := Some (Quiz_context
       \<lparr>index = 1, state_type = ''multi_part'', n_responses = 3, responses = [''x'', ''y'']\<rparr>)\<rparr>)
     = Some (Quiz_context
       \<lparr>index = 1, state_type = ''multi_part'', n_responses = 3, responses = [''x'', ''y'']\<rparr>)
   \<and> manage_quiz_state sorted_keys example_templates example_quiz
       (empty_session\<lparr>state := Some (Quiz_context
          \<lparr>index = 1, state_type = ''multi_part'', n_responses = 3, responses = [''x'', ''y'']\<rparr>)\<rparr>) []
     = (Inr (Question ''need one more answer'' ''need one more answer'' None),
        empty_session\<lparr>state := Some (Quiz_context
          \<lparr>index = 1, state_type = ''multi_part'', n_responses = 3, responses = [''x'', ''y'']\<rparr>)\<rparr>)
   \<and> manage_quiz_state sorted_keys example_templates example_quiz
       (empty_session\<lparr>state := Some (Quiz_context
          \<lparr>index = 1, state_type = ''multi_part'', n_responses = 3, responses = [''x'']\<rparr>)\<rparr>) []
     = (Inr (Question (example_templates (Need_more_answers 2))
               (example_templates (Need_more_answers 2)) None),
        empty_session\<lparr>state := Some (Quiz_context
          \<lparr>index = 1, state_type = ''multi_part'', n_responses = 3, responses = [''x'']\<rparr>)\<rparr>)"
proof -
  let ?st2 = "\<lparr>index = 1, state_type = ''multi_part'', n_responses = 3, responses = [''x'', ''y'']\<rparr>"
  let ?st1 = "\<lparr>index = 1, state_type = ''multi_part'', n_responses = 3, responses = [''x'']\<rparr>"
  have s2: "state (empty_session\<lparr>state := Some (Quiz_context ?st2)\<rparr>) = Some (Quiz_context ?st2)"
    and s1: "state (empty_session\<lparr>state := Some (Quiz_context ?st1)\<rparr>) = Some (Quiz_context ?st1)"
    by simp_all
  show ?thesis
    using manage_quiz_state_empty_submission [OF s2, of sorted_keys example_templates example_quiz]
      manage_quiz_state_empty_submission [OF s1, of sorted_keys example_templates example_quiz]
    by (simp add: prod_eq_iff)
qed

section \<open>Grading: properties\<close>

text \<open>Every match is one of the candidates, and the first match is a best-scoring one.\<close>

lemma get_close_matches_subset:
  "set (get_close_matches word possibilities n cutoff) \<subseteq> set possibilities"
proof -
  have "set (take n (rev (sort xs))) \<subseteq> set xs" for xs :: "(rat \<times> string) list"
    using set_take_subset [of n "rev (sort xs)"] by simp
  then show ?thesis
    unfolding get_close_matches_def nlargest_def by fastforce
qed





lemma update_values_subset:
  "mset (map snd (AList.update k v al)) \<subseteq># add_mset v (mset (map snd al))"
proof (induction al)
  case Nil
  show ?case by simp
next
  case (Cons p al)
  show ?case
  proof (cases "fst p = k")
    case True
    then show ?thesis by (cases p) simp
  next
    case False
    have "add_mset (snd p) (mset (map snd (AList.update k v al)))
            \<subseteq># add_mset (snd p) (add_mset v (mset (map snd al)))"
      using Cons.IH by simp
    with False show ?thesis by (cases p) (simp add: add_mset_commute)
  qed
qed

lemma update_fresh_key:
  "k \<notin> fst ` set al \<Longrightarrow> AList.update k v al = al @ [(k, v)]"
  by (induction al) auto

lemma check_loop_counts:
  assumes "check_loop response (all_correct, g, known_answers) = (all_correct', g', known_answers')"
  shows "length known_answers' + length response + length (incorrect g)
           = length known_answers + length (incorrect g')
       \<and> length (incorrect g) \<le> length (incorrect g')
       \<and> (all_correct' \<longleftrightarrow> all_correct \<and> length (incorrect g') = length (incorrect g))"
  using assms
proof (induction response arbitrary: all_correct g known_answers)
  case Nil
  then show ?case by auto
next
  case (Cons resp response)
  let ?matches = "get_close_matches resp known_answers 3 (8 / 10)"
  show ?case
  proof (cases "0 < length ?matches")
    case True
    then have "hd ?matches \<in> set ?matches" by simp
    then have m: "hd ?matches \<in> set known_answers"
      using get_close_matches_subset by blast
    then have len: "length (remove1 (hd ?matches) known_answers) + 1 = length known_answers"
      using length_pos_if_in_set [OF m] by (simp add: length_remove1)
    from Cons.prems True
    have "check_loop response
            (all_correct, g\<lparr>correct := AList.update resp (hd ?matches) (correct g)\<rparr>,
             remove1 (hd ?matches) known_answers) = (all_correct', g', known_answers')"
      by (simp add: Let_def)
    from Cons.IH [OF this] len show ?thesis by simp
  next
    case False
    with Cons.prems
    have "check_loop response
            (False, g\<lparr>incorrect := incorrect g @ [resp]\<rparr>, known_answers)
            = (all_correct', g', known_answers')"
      by (simp add: Let_def)
    from Cons.IH [OF this] show ?thesis by auto
  qed
qed

lemma check_loop_consumes:
  assumes "check_loop response (all_correct, g, known_answers) = (all_correct', g', known_answers')"
  shows "mset (map snd (correct g')) + mset known_answers'
           \<subseteq># mset (map snd (correct g)) + mset known_answers"
  using assms
proof (induction response arbitrary: all_correct g known_answers)
  case Nil
  then show ?case by auto
next
  case (Cons resp response)
  let ?matches = "get_close_matches resp known_answers 3 (8 / 10)"
  show ?case
  proof (cases "0 < length ?matches")
    case True
    then have "hd ?matches \<in> set ?matches" by simp
    then have m: "hd ?matches \<in> set known_answers"
      using get_close_matches_subset by blast
    from Cons.prems True
    have "check_loop response
            (all_correct, g\<lparr>correct := AList.update resp (hd ?matches) (correct g)\<rparr>,
             remove1 (hd ?matches) known_answers) = (all_correct', g', known_answers')"
      by (simp add: Let_def)
    from Cons.IH [OF this]
    have "mset (map snd (correct g')) + mset known_answers'
            \<subseteq># mset (map snd (AList.update resp (hd ?matches) (correct g)))
                + mset (remove1 (hd ?matches) known_answers)"
      by simp
    also have "\<dots> \<subseteq># add_mset (hd ?matches) (mset (map snd (correct g)))
                + mset (remove1 (hd ?matches) known_answers)"
      using update_values_subset [of resp "hd ?matches" "correct g"]
      by (simp add: subset_mset.add_right_mono)
    also have "\<dots> = mset (map snd (correct g)) + mset known_answers"
      using m by simp
    finally show ?thesis .
  next
    case False
    with Cons.prems
    have "check_loop response
            (False, g\<lparr>incorrect := incorrect g @ [resp]\<rparr>, known_answers)
            = (all_correct', g', known_answers')"
      by (simp add: Let_def)
    from Cons.IH [OF this] show ?thesis by simp
  qed
qed

lemma check_loop_accounts:
  assumes "check_loop response (all_correct, g, known_answers) = (all_correct', g', known_answers')"
    and "distinct response" "set response \<inter> fst ` set (correct g) = {}"
  shows "mset (map snd (correct g')) + mset known_answers'
           = mset (map snd (correct g)) + mset known_answers"
  using assms
proof (induction response arbitrary: all_correct g known_answers)
  case Nil
  then show ?case by auto
next
  case (Cons resp response)
  let ?matches = "get_close_matches resp known_answers 3 (8 / 10)"
  have fresh: "resp \<notin> fst ` set (correct g)" and d: "distinct response" "resp \<notin> set response"
    using Cons.prems(2,3) by auto
  show ?case
  proof (cases "0 < length ?matches")
    case True
    then have "hd ?matches \<in> set ?matches" by simp
    then have m: "hd ?matches \<in> set known_answers"
      using get_close_matches_subset by blast
    let ?g = "g\<lparr>correct := AList.update resp (hd ?matches) (correct g)\<rparr>"
    have upd: "correct ?g = correct g @ [(resp, hd ?matches)]"
      using update_fresh_key [OF fresh] by simp
    from Cons.prems(1) True
    have run: "check_loop response (all_correct, ?g, remove1 (hd ?matches) known_answers)
                 = (all_correct', g', known_answers')"
      by (simp add: Let_def)
    have disj: "set response \<inter> fst ` set (correct ?g) = {}"
      unfolding upd using Cons.prems(3) d(2) by auto
    from Cons.IH [OF run d(1) disj]
    have "mset (map snd (correct g')) + mset known_answers'
            = mset (map snd (correct ?g)) + mset (remove1 (hd ?matches) known_answers)" .
    also have "\<dots> = mset (map snd (correct g)) + mset known_answers"
      unfolding upd using m by simp
    finally show ?thesis .
  next
    case False
    with Cons.prems(1)
    have run: "check_loop response
            (False, g\<lparr>incorrect := incorrect g @ [resp]\<rparr>, known_answers)
            = (all_correct', g', known_answers')"
      by (simp add: Let_def)
    have disj: "set response \<inter> fst ` set (correct (g\<lparr>incorrect := incorrect g @ [resp]\<rparr>)) = {}"
      using Cons.prems(3) by auto
    from Cons.IH [OF run d(1) disj] show ?thesis by simp
  qed
qed

lemma check_loop_missing:
  "check_loop response (all_correct, g, known_answers) = (all_correct', g', known_answers')
   \<Longrightarrow> missing g' = missing g"
proof (induction response arbitrary: all_correct g known_answers)
  case Nil
  then show ?case by auto
next
  case (Cons resp response)
  show ?case
  proof (cases "0 < length (get_close_matches resp known_answers 3 (8 / 10))")
    case True
    with Cons.prems Cons.IH [of all_correct
        "g\<lparr>correct := AList.update resp (hd (get_close_matches resp known_answers 3 (8 / 10))) (correct g)\<rparr>"
        "remove1 (hd (get_close_matches resp known_answers 3 (8 / 10))) known_answers"]
    show ?thesis by (simp add: Let_def)
  next
    case False
    with Cons.prems Cons.IH [of False "g\<lparr>incorrect := incorrect g @ [resp]\<rparr>" known_answers]
    show ?thesis by (simp add: Let_def)
  qed
qed

lemma grade_check_loop:
  obtains all_correct g known_answers' where
    "check_loop response (True, \<lparr>correct = [], incorrect = [], missing = None\<rparr>, known_answers)
       = (all_correct, g, known_answers')"
    and "fst (grade response known_answers) = all_correct"
    and "correct (snd (grade response known_answers)) = correct g"
    and "incorrect (snd (grade response known_answers)) = incorrect g"
    and "missing_answers (snd (grade response known_answers)) = known_answers'"
    and "missing (snd (grade response known_answers)) = None \<longleftrightarrow> known_answers' = []"
proof -
  obtain all_correct g known_answers' where run:
    "check_loop response (True, \<lparr>correct = [], incorrect = [], missing = None\<rparr>, known_answers)
       = (all_correct, g, known_answers')"
    by (metis prod_cases3)
  have none: "missing g = None"
    using check_loop_missing [OF run] by simp
  show ?thesis
    by (rule that [OF run]) (simp_all add: grade_def run missing_answers_def none)
qed



text \<open>
  C1, amended. \<open>all_correct\<close> is true exactly when no response is incorrect; missing
  answers do not enter it. When as many responses are graded as there are known answers,
  this is the same as no incorrect response and no missing answer.
  \<open>grade([], {"a", "b"})\<close> has both answers missing and \<open>all_correct = True\<close>.
\<close>

theorem grade_all_correct:
  "(fst (grade response known_answers) \<longleftrightarrow> incorrect (snd (grade response known_answers)) = [])
   \<and> (length response = length known_answers \<longrightarrow>
        (fst (grade response known_answers) \<longleftrightarrow>
           incorrect (snd (grade response known_answers)) = []
           \<and> missing (snd (grade response known_answers)) = None))
   \<and> grade [] [''a'', ''b''] =
        (True, \<lparr>correct = [], incorrect = [], missing = Some [''a'', ''b'']\<rparr>)"
proof -
  obtain all_correct g known_answers' where run:
    "check_loop response (True, \<lparr>correct = [], incorrect = [], missing = None\<rparr>, known_answers)
       = (all_correct, g, known_answers')"
    and g: "fst (grade response known_answers) = all_correct"
      "incorrect (snd (grade response known_answers)) = incorrect g"
      "missing (snd (grade response known_answers)) = None \<longleftrightarrow> known_answers' = []"
    by (rule grade_check_loop)
  from check_loop_counts [OF run]
  have counts: "length known_answers' + length response = length known_answers + length (incorrect g)"
    and flag: "all_correct \<longleftrightarrow> incorrect g = []"
    by simp_all
  have a: "fst (grade response known_answers) \<longleftrightarrow> incorrect (snd (grade response known_answers)) = []"
    using g flag by simp
  have b: "fst (grade response known_answers) \<longleftrightarrow>
           incorrect (snd (grade response known_answers)) = []
           \<and> missing (snd (grade response known_answers)) = None"
    if "length response = length known_answers"
    using that g flag counts by auto
  have c: "grade [] [''a'', ''b''] =
        (True, \<lparr>correct = [], incorrect = [], missing = Some [''a'', ''b'']\<rparr>)"
    by (simp add: grade_def)
  from a b c show ?thesis by blast
qed

theorem grade_all_correct_witness:
  "length [''a'', ''b''] = length [''a'', ''b'']
   \<and> fst (grade [''a'', ''b''] [''a'', ''b''])
   \<and> incorrect (snd (grade [''a'', ''b''] [''a'', ''b''])) = []
   \<and> missing (snd (grade [''a'', ''b''] [''a'', ''b''])) = None"
proof -
  have ev: "grade [''a'', ''b''] [''a'', ''b''] =
      (True, \<lparr>correct = [(''a'', ''a''), (''b'', ''b'')], incorrect = [], missing = None\<rparr>)"
    by code_simp
  show ?thesis
    using grade_all_correct [of "[''a'', ''b'']" "[''a'', ''b'']"] ev by simp
qed

text \<open>
  C1 as the specification states it, with \<open>all_correct\<close> equal to no incorrect response
  and no missing answer, fails on the specification's own example: nothing is incorrect,
  both answers are missing, and \<open>all_correct\<close> is true.
\<close>

theorem grade_all_correct_counterexample:
  "\<not> (fst (grade [] [''a'', ''b'']) \<longleftrightarrow>
        incorrect (snd (grade [] [''a'', ''b''])) = []
        \<and> missing (snd (grade [] [''a'', ''b''])) = None)
   \<and> fst (grade [] [''a'', ''b'']) \<noteq> False"
  by (simp add: grade_def)

text \<open>
  C10, amended. The matched values recorded in \<^verbatim>\<open>graded['correct']\<close> together with
  the missing answers are contained in the known answers, counting occurrences; so for
  pairwise distinct known answers they are pairwise distinct. When the responses are
  pairwise distinct, they are exactly the known answers.
\<close>

theorem grade_accounts_for_known_answers:
  "mset (map snd (correct (snd (grade response known_answers))))
       + mset (missing_answers (snd (grade response known_answers))) \<subseteq># mset known_answers
   \<and> (distinct known_answers \<longrightarrow>
        distinct (map snd (correct (snd (grade response known_answers)))
                  @ missing_answers (snd (grade response known_answers))))
   \<and> (distinct response \<longrightarrow>
        mset (map snd (correct (snd (grade response known_answers))))
          + mset (missing_answers (snd (grade response known_answers))) = mset known_answers)"
proof -
  let ?g0 = "\<lparr>correct = [], incorrect = [], missing = None\<rparr>"
  obtain all_correct g known_answers' where run:
    "check_loop response (True, ?g0, known_answers) = (all_correct, g, known_answers')"
    and g: "correct (snd (grade response known_answers)) = correct g"
      "missing_answers (snd (grade response known_answers)) = known_answers'"
    by (rule grade_check_loop)
  have sub: "mset (map snd (correct g)) + mset known_answers' \<subseteq># mset known_answers"
    using check_loop_consumes [OF run] by simp
  have dist: "distinct (map snd (correct g) @ known_answers')" if "distinct known_answers"
  proof -
    define xs where "xs = map snd (correct g) @ known_answers'"
    have sub': "mset xs \<subseteq># mset known_answers"
      using sub by (simp add: xs_def)
    have "count (mset xs) a = (if a \<in> set xs then 1 else 0)" for a
    proof -
      have "count (mset xs) a \<le> count (mset known_answers) a"
        using mset_subset_eq_count [OF sub'] .
      also have "\<dots> \<le> 1"
        using that by (simp add: distinct_count_atmost_1)
      finally have le: "count (mset xs) a \<le> 1" .
      have pos: "0 < count (mset xs) a \<longleftrightarrow> a \<in> set xs"
        by (simp only: count_greater_zero_iff set_mset_mset)
      show ?thesis
      proof (cases "a \<in> set xs")
        case True
        with pos le have "count (mset xs) a = 1" by linarith
        with True show ?thesis by (simp only: if_True)
      next
        case False
        with pos have "count (mset xs) a = 0" by blast
        with False show ?thesis by (simp only: if_False)
      qed
    qed
    then have "distinct xs" by (simp only: distinct_count_atmost_1) simp
    then show ?thesis by (simp only: xs_def)
  qed
  have eq: "mset (map snd (correct g)) + mset known_answers' = mset known_answers"
    if "distinct response"
    using check_loop_accounts [OF run that] by simp
  from sub dist eq show ?thesis unfolding g by blast
qed

theorem grade_accounts_for_known_answers_witness:
  "distinct [''trust'', ''trusts''] \<and> distinct [''trusts'', ''trust'']
   \<and> grade [''trusts'', ''trust''] [''trust'', ''trusts''] =
       (True, \<lparr>correct = [(''trusts'', ''trusts''), (''trust'', ''trust'')],
               incorrect = [], missing = None\<rparr>)
   \<and> mset (map snd (correct (snd (grade [''trusts'', ''trust''] [''trust'', ''trusts'']))))
       + mset (missing_answers (snd (grade [''trusts'', ''trust''] [''trust'', ''trusts''])))
      = mset [''trust'', ''trusts'']"
proof -
  have ev: "grade [''trusts'', ''trust''] [''trust'', ''trusts''] =
       (True, \<lparr>correct = [(''trusts'', ''trusts''), (''trust'', ''trust'')],
               incorrect = [], missing = None\<rparr>)"
    by code_simp
  have d: "distinct [''trust'', ''trusts'']" "distinct [''trusts'', ''trust'']" by simp_all
  show ?thesis
    using grade_accounts_for_known_answers [of "[''trusts'', ''trust'']" "[''trust'', ''trusts'']"] d ev
    by blast
qed

text \<open>
  C10 without the condition on the responses fails when a response is repeated and matches
  twice: the second match replaces the first under the same key, and the known answer
  matched first is neither recorded nor missing.
\<close>

theorem grade_accounts_for_known_answers_counterexample:
  "grade [''trust'', ''trust''] [''trust'', ''trusts''] =
     (True, \<lparr>correct = [(''trust'', ''trusts'')], incorrect = [], missing = None\<rparr>)
   \<and> mset (map snd (correct (snd (grade [''trust'', ''trust''] [''trust'', ''trusts'']))))
       + mset (missing_answers (snd (grade [''trust'', ''trust''] [''trust'', ''trusts''])))
      \<noteq> mset [''trust'', ''trusts'']"
proof -
  have ev: "grade [''trust'', ''trust''] [''trust'', ''trusts''] =
     (True, \<lparr>correct = [(''trust'', ''trusts'')], incorrect = [], missing = None\<rparr>)"
    by code_simp
  show ?thesis unfolding ev by (simp add: missing_answers_def)
qed

section \<open>The summary of a grade\<close>

text \<open>
  C7, amended. \<^verbatim>\<open>process_answers\<close> returns the fixed sentence
  \<open>Great job! That is correct.\<close> when \<open>all_correct\<close> holds; otherwise, when exactly one
  response is incorrect and at least one known answer is missing, the
  \<open>incorrect_answer\<close> template with that response and the first missing answer;
  otherwise, when the number of incorrect responses is not one, the
  \<open>incorrect_answers\<close> template with the natural join of the incorrect responses and
  the natural join of the keys of \<^verbatim>\<open>graded['correct']\<close> as the interpreter iterates over
  them: whenever that iteration enumerates the keys, the natural join of the responses
  that found a match, in some order.
\<close>

theorem process_answers_summary:
  assumes "check_answers leadership_quiz s = Inr (all_correct, g)"
  shows "(all_correct \<longrightarrow>
            process_answers dict_iter render_template leadership_quiz s =
              Inr ''Great job! That is correct.'')
       \<and> (\<not> all_correct \<and> length (incorrect g) = 1 \<longrightarrow>
            (\<forall>correct_answer rest. missing g = Some (correct_answer # rest) \<longrightarrow>
               process_answers dict_iter render_template leadership_quiz s =
                 Inr (render_template (Incorrect_answer (hd (incorrect g)) correct_answer))))
       \<and> (\<not> all_correct \<and> length (incorrect g) \<noteq> 1 \<longrightarrow>
            process_answers dict_iter render_template leadership_quiz s =
              Inr (render_template
                     (Incorrect_answers (concatenate_text_items (incorrect g))
                        (concatenate_text_items (dict_iter (correct g))))))
       \<and> (\<not> all_correct \<and> length (incorrect g) \<noteq> 1
            \<and> mset (dict_iter (correct g)) = mset (map fst (correct g)) \<longrightarrow>
            (\<exists>matched.
               mset matched = mset (map fst (correct g))
               \<and> process_answers dict_iter render_template leadership_quiz s =
                   Inr (render_template
                          (Incorrect_answers (concatenate_text_items (incorrect g))
                             (concatenate_text_items matched)))))"
proof -
  have great: "process_answers dict_iter render_template leadership_quiz s =
      Inr ''Great job! That is correct.''" if "all_correct"
    using assms that by (simp add: process_answers_def)
  have single: "process_answers dict_iter render_template leadership_quiz s =
      Inr (render_template (Incorrect_answer (hd (incorrect g)) correct_answer))"
    if "\<not> all_correct \<and> length (incorrect g) = 1" "missing g = Some (correct_answer # rest)"
    for correct_answer rest
    using assms that by (simp add: process_answers_def)
  have joined: "process_answers dict_iter render_template leadership_quiz s =
      Inr (render_template
             (Incorrect_answers (concatenate_text_items (incorrect g))
                (concatenate_text_items (dict_iter (correct g)))))"
    if "\<not> all_correct \<and> length (incorrect g) \<noteq> 1"
    using assms that by (simp add: process_answers_def Let_def)
  have some_order: "\<exists>matched.
      mset matched = mset (map fst (correct g))
      \<and> process_answers dict_iter render_template leadership_quiz s =
          Inr (render_template
                 (Incorrect_answers (concatenate_text_items (incorrect g))
                    (concatenate_text_items matched)))"
    if "\<not> all_correct \<and> length (incorrect g) \<noteq> 1
        \<and> mset (dict_iter (correct g)) = mset (map fst (correct g))"
    using joined that by blast
  from great single joined some_order show ?thesis by blast
qed

theorem process_answers_summary_witness:
  "check_answers example_quiz (quiz_session 1 [''x'', ''y'', ''z'']) =
     Inr (True, \<lparr>correct = [(''x'', ''x''), (''y'', ''y''), (''z'', ''z'')], incorrect = [],
                 missing = None\<rparr>)
   \<and> process_answers sorted_keys example_templates example_quiz
         (quiz_session 1 [''x'', ''y'', ''z'']) =
       Inr ''Great job! That is correct.''
   \<and> check_answers example_quiz (quiz_session 1 [''x'', ''y'', ''q'']) =
       Inr (False, \<lparr>correct = [(''x'', ''x''), (''y'', ''y'')], incorrect = [''q''],
                    missing = Some [''z'']\<rparr>)
   \<and> process_answers sorted_keys example_templates example_quiz
         (quiz_session 1 [''x'', ''y'', ''q'']) =
       Inr ''incorrect_answer[q][z]''
   \<and> check_answers example_quiz_four example_session_four =
       Inr (False, \<lparr>correct = [(''b'', ''b''), (''a'', ''a'')], incorrect = [''p'', ''q''],
                    missing = Some [''c'', ''d'']\<rparr>)
   \<and> mset (sorted_keys [(''b'', ''b''), (''a'', ''a'')])
       = mset (map fst [(''b'', ''b''), (''a'', ''a'')])
   \<and> process_answers sorted_keys example_templates example_quiz_four example_session_four =
       Inr ''incorrect_answers[p, and q][a, and b]''"
proof -
  have a: "check_answers example_quiz (quiz_session 1 [''x'', ''y'', ''z'']) =
     Inr (True, \<lparr>correct = [(''x'', ''x''), (''y'', ''y''), (''z'', ''z'')], incorrect = [],
                 missing = None\<rparr>)"
    by code_simp
  have b: "check_answers example_quiz (quiz_session 1 [''x'', ''y'', ''q'']) =
       Inr (False, \<lparr>correct = [(''x'', ''x''), (''y'', ''y'')], incorrect = [''q''],
                    missing = Some [''z'']\<rparr>)"
    by code_simp
  have c: "check_answers example_quiz_four example_session_four =
       Inr (False, \<lparr>correct = [(''b'', ''b''), (''a'', ''a'')], incorrect = [''p'', ''q''],
                    missing = Some [''c'', ''d'']\<rparr>)"
    by code_simp
  have perm: "mset (sorted_keys [(''b'', ''b''), (''a'', ''a'')])
                = mset (map fst [(''b'', ''b''), (''a'', ''a'')])"
    by (simp add: sorted_keys_def)
  have ra: "process_answers sorted_keys example_templates example_quiz
         (quiz_session 1 [''x'', ''y'', ''z'']) = Inr ''Great job! That is correct.''"
    using process_answers_summary [OF a, of sorted_keys example_templates] by simp
  have rb: "process_answers sorted_keys example_templates example_quiz
         (quiz_session 1 [''x'', ''y'', ''q'']) = Inr ''incorrect_answer[q][z]''"
    using process_answers_summary [OF b, of sorted_keys example_templates] by simp
  have keys: "sorted_keys [(''b'', ''b''), (''a'', ''a'')] = [''a'', ''b'']"
    by code_simp
  have j: "concatenate_text_items [''p'', ''q''] = ''p, and q''"
    "concatenate_text_items [''a'', ''b''] = ''a, and b''"
    by (simp_all add: concatenate_text_items_def Let_def)
  have rc: "process_answers sorted_keys example_templates example_quiz_four example_session_four =
       Inr ''incorrect_answers[p, and q][a, and b]''"
    using process_answers_summary [OF c, of sorted_keys example_templates] by (simp add: keys j)
  from a b c perm ra rb rc show ?thesis by blast
qed

text \<open>
  C7 as the specification states it, with the single correction only for exactly one pair
  of an incorrect and a missing answer, fails for a single-part question with two accepted
  answers and one wrong response: there is one incorrect response and there are two
  missing answers, and the summary is the single correction, not the joined lists. No key
  is in the dictionary, so the order of iteration plays no part.
\<close>

theorem process_answers_summary_counterexample:
  "check_answers example_quiz (quiz_session 0 [''x'']) =
     Inr (False, \<lparr>correct = [], incorrect = [''x''], missing = Some [''a'', ''b'']\<rparr>)
   \<and> process_answers sorted_keys example_templates example_quiz (quiz_session 0 [''x'']) =
       Inr (example_templates (Incorrect_answer ''x'' ''a''))
   \<and> process_answers sorted_keys example_templates example_quiz (quiz_session 0 [''x'']) \<noteq>
       Inr (example_templates
              (Incorrect_answers (concatenate_text_items [''x'']) (concatenate_text_items [])))"
  by code_simp

end
